theory Spec2Isabelle
  imports Main "HOL-Library.Word" "HOL-Library.Signed_Division"
begin

section \<open>Machine types\<close>

text \<open>
  The sources are C for an LP64 target: \<^verbatim>\<open>unsigned long\<close>, \<^verbatim>\<open>size_t\<close> and
  \<^verbatim>\<open>uint64_t\<close> are 64-bit words, \<^verbatim>\<open>unsigned int\<close> and \<^verbatim>\<open>int32_t\<close> are
  32-bit words, \<^verbatim>\<open>unsigned char\<close> is an 8-bit word. Word arithmetic wraps as the
  unsigned C arithmetic does. A sample is one 32-bit value; the cache and the mixer
  count in units of 4 bytes.
\<close>

type_synonym ulong = "64 word"
type_synonym uint = "32 word"
type_synonym uchar = "8 word"
type_synonym sample = "32 word"

section \<open>output\_alsa.c: volume scaling and saturating addition (integer build)\<close>

text \<open>
  \<^verbatim>\<open>output_alsa_vol\<close>: \<^verbatim>\<open>value = ((int64_t)x * v) / OUTPUT_VOLUME_MAX; return (int32_t) value;\<close>
  The macro \<^verbatim>\<open>OUTPUT_VOLUME_MAX\<close> is declared in a header that is not part of the
  sources at hand, so it is the parameter \<open>vmax\<close>. The product of an \<^verbatim>\<open>int32_t\<close> and
  an \<^verbatim>\<open>unsigned int\<close> lies strictly between \<open>-2^63\<close> and \<open>2^63\<close>, so the 64-bit
  product is the mathematical one; C division truncates towards zero (\<open>sdiv\<close>); the
  final cast keeps the low 32 bits (\<open>word_of_int\<close>).
\<close>

definition output_alsa_vol :: "int \<Rightarrow> sample \<Rightarrow> uint \<Rightarrow> sample" where
  "output_alsa_vol vmax x v = word_of_int ((sint x * uint v) sdiv vmax)"

text \<open>
  \<^verbatim>\<open>output_alsa_add\<close>: the sum of two \<^verbatim>\<open>int32_t\<close> in \<^verbatim>\<open>int64_t\<close> cannot
  overflow; it is clamped to \<^verbatim>\<open>0x7FFFFFFF\<close> and \<^verbatim>\<open>-0x80000000\<close> and cast back.
\<close>

definition output_alsa_add :: "sample \<Rightarrow> sample \<Rightarrow> sample" where
  "output_alsa_add a b =
     (let sum = sint a + sint b;
          sum' = (if sum > 0x7FFFFFFF then 0x7FFFFFFF
                  else if sum < - 0x80000000 then - 0x80000000
                  else sum)
      in word_of_int sum')"

definition INT32_MAX :: sample where
  "INT32_MAX = 0x7FFFFFFF"

definition INT32_MIN :: sample where
  "INT32_MIN = 0x80000000"

section \<open>output\_alsa.c: streams\<close>

text \<open>
  Objects owned by other modules (the resampler, the cache, an event callback and
  its user pointer) are referred to by a handle; \<open>None\<close> is the NULL pointer.
  Fields of \<^verbatim>\<open>struct output_stream\<close> carry the prefix \<open>s_\<close>, fields of
  \<^verbatim>\<open>struct output\<close> (the record \<open>output_t\<close>) the prefix \<open>o_\<close>. The \<^verbatim>\<open>int\<close> flags \<^verbatim>\<open>is_playing\<close>,
  \<^verbatim>\<open>end_of_stream\<close>, \<^verbatim>\<open>abort\<close> and \<^verbatim>\<open>buffering\<close> are only ever assigned 0 or 1
  and are booleans here.
\<close>

type_synonym handle = nat

record output_stream =
  s_res :: "handle option"
  s_samplerate :: ulong
  s_channels :: uchar
  s_is_playing :: bool
  s_end_of_stream :: bool
  s_played :: ulong
  s_abort :: bool
  s_volume :: uint
  s_cache :: "handle option"
  s_delay :: ulong
  s_event_cb :: "handle option"
  s_event_ud :: handle
  s_buffering :: bool

record output_t =
  o_samplerate :: ulong
  o_channels :: uchar
  o_volume :: uint
  o_stop :: bool
  o_streams :: "output_stream list"

text \<open>
  Modelled from the spec: the enumeration of stream events, declared in a header that
  is not part of the sources at hand (\<^verbatim>\<open>STREAM_EVENT_{BUFFERING,READY,END}\<close>).
\<close>

datatype stream_event = STREAM_EVENT_BUFFERING | STREAM_EVENT_READY | STREAM_EVENT_END

text \<open>
  What a call of the mixer does to the modules around it: it invokes an event callback
  \<^verbatim>\<open>event_cb(event_ud, event, NULL)\<close>, closes a cache or closes a resampler.
\<close>

datatype effect =
  Event_cb handle handle stream_event
  | Cache_close handle
  | Resample_close handle

subsection \<open>Played counter\<close>

text \<open>
  \<^verbatim>\<open>output_alsa_restore_stream\<close>:
  \<^verbatim>\<open>s->played = ((uint64_t)value) * h->samplerate * h->channels / 1000;\<close>
\<close>

definition output_alsa_restore_stream :: "output_t \<Rightarrow> output_stream \<Rightarrow> ulong \<Rightarrow> output_stream" where
  "output_alsa_restore_stream h s v =
     s\<lparr>s_played := v * o_samplerate h * ucast (o_channels h) div 1000\<rparr>"

text \<open>
  \<^verbatim>\<open>output_alsa_get_status_stream\<close>, case \<^verbatim>\<open>OUTPUT_STREAM_PLAYED\<close>:
  \<^verbatim>\<open>ret = s->played * 1000 / h->samplerate / h->channels;\<close>
  A division by zero is undefined in C; the model returns \<open>None\<close> there.
\<close>

definition get_status_played :: "output_t \<Rightarrow> output_stream \<Rightarrow> ulong option" where
  "get_status_played h s =
     (if o_samplerate h = 0 \<or> o_channels h = 0 then None
      else Some (s_played s * 1000 div o_samplerate h div ucast (o_channels h)))"

subsection \<open>Abort and write\<close>

text \<open>
  \<^verbatim>\<open>output_alsa_abort_stream\<close> stops the stream, sets \<^verbatim>\<open>abort\<close>, takes the cache's
  input lock and returns the played time plus the delays of cache and resampler.
  \<^verbatim>\<open>cache_delay\<close> and \<^verbatim>\<open>resample_delay\<close> belong to other modules; their results are
  the parameters \<open>cdelay\<close> and \<open>rdelay\<close>. The state of those modules is \<open>w\<close>, and
  \<open>lock\<close> is \<^verbatim>\<open>cache_lock\<close> on it, \<open>None\<close> when the call never returns.
\<close>

definition output_alsa_abort_stream ::
  "(handle option \<Rightarrow> 'w \<Rightarrow> 'w option) \<Rightarrow> ulong \<Rightarrow> ulong \<Rightarrow> output_t \<Rightarrow> output_stream \<Rightarrow> 'w
     \<Rightarrow> (ulong \<times> output_stream \<times> 'w) option" where
  "output_alsa_abort_stream lock cdelay rdelay h s w =
     (let s' = s\<lparr>s_is_playing := False, s_abort := True\<rparr> in
      case lock (s_cache s') w of
        None \<Rightarrow> None
      | Some w' \<Rightarrow>
          if o_samplerate h = 0 \<or> o_channels h = 0 then None
          else Some (s_played s' * 1000 div o_samplerate h div ucast (o_channels h)
                       + cdelay + rdelay, s', w'))"

text \<open>
  \<^verbatim>\<open>output_alsa_write_stream\<close>: \<^verbatim>\<open>if(!s->abort) ret = resample_write(s->res, buffer, size, fmt);\<close>
  \<^verbatim>\<open>resample_write\<close> is the parameter \<open>rw\<close>; it returns a count and changes the state
  \<open>w\<close> of resampler and cache. The format argument is passed through as it is.
\<close>

definition output_alsa_write_stream ::
  "(handle option \<Rightarrow> sample list \<Rightarrow> ulong \<Rightarrow> 'f \<Rightarrow> 'w \<Rightarrow> int \<times> 'w) \<Rightarrow> output_stream
     \<Rightarrow> sample list \<Rightarrow> ulong \<Rightarrow> 'f \<Rightarrow> 'w \<Rightarrow> int \<times> 'w" where
  "output_alsa_write_stream rw s buffer sz fmt w =
     (if \<not> s_abort s then rw (s_res s) buffer sz fmt w else (0, w))"

subsection \<open>The mixing loop\<close>

text \<open>
  The outcome of \<^verbatim>\<open>cache_read(s->cache, in_buffer, len, &fmt)\<close> as the mixer sees it:
  the returned count and the contents of \<^verbatim>\<open>in_buffer\<close> after the call. Between two
  runs of the mixer the producer side changes the cache, so the outcome is given per
  call. \<^verbatim>\<open>cache_read\<close> on a NULL handle returns \<open>-1\<close>.
\<close>

record read_outcome =
  r_ret :: int
  r_data :: "sample list"

record mix_state =
  m_out_buffer :: "sample list"
  m_out_size :: int
  m_first :: bool

text \<open>The two sample loops: \<^verbatim>\<open>for(i = 0; i < in_size; i++) p_out[i] = ...\<close>\<close>

definition mix_init :: "int \<Rightarrow> uint \<Rightarrow> sample list \<Rightarrow> nat \<Rightarrow> sample list \<Rightarrow> sample list" where
  "mix_init vmax vol p_in n p_out =
     fold (\<lambda>i out. out[i := output_alsa_vol vmax (p_in ! i) vol]) [0..<n] p_out"

definition mix_add :: "int \<Rightarrow> uint \<Rightarrow> sample list \<Rightarrow> nat \<Rightarrow> sample list \<Rightarrow> sample list" where
  "mix_add vmax vol p_in n p_out =
     fold (\<lambda>i out. out[i := output_alsa_add (out ! i) (output_alsa_vol vmax (p_in ! i) vol)])
       [0..<n] p_out"

definition notify :: "output_stream \<Rightarrow> stream_event \<Rightarrow> effect list" where
  "notify s e = (case s_event_cb s of None \<Rightarrow> [] | Some cb \<Rightarrow> [Event_cb cb (s_event_ud s) e])"

text \<open>
  One iteration of the \<^verbatim>\<open>for\<close> loop over the stream list in
  \<^verbatim>\<open>output_alsa_mix_streams\<close>. The last statement of the body is
  \<^verbatim>\<open>if(out_size < in_size); out_size = in_size;\<close>: the \<^verbatim>\<open>if\<close> guards an empty
  statement and the assignment always runs.
\<close>

definition mix_stream ::
  "int \<Rightarrow> output_stream \<Rightarrow> read_outcome \<Rightarrow> mix_state \<Rightarrow> output_stream \<times> mix_state \<times> effect list" where
  "mix_stream vmax s rd m =
     (if \<not> s_is_playing s \<or> s_end_of_stream s then (s, m, [])
      else
        let in_size = (case s_cache s of None \<Rightarrow> - 1 | Some c \<Rightarrow> r_ret rd) in
        if in_size \<le> 0 then
          (if in_size < 0 then
             (s\<lparr>s_end_of_stream := True, s_cache := None, s_res := None\<rparr>, m,
              (case s_cache s of None \<Rightarrow> [] | Some c \<Rightarrow> [Cache_close c])
              @ (case s_res s of None \<Rightarrow> [] | Some r \<Rightarrow> [Resample_close r])
              @ notify s STREAM_EVENT_END)
           else if s_delay s > 0 then
             (s\<lparr>s_buffering := True\<rparr>, m,
              if \<not> s_buffering s then notify s STREAM_EVENT_BUFFERING else [])
           else (s, m, []))
        else
          let ready = (s_delay s > 0 \<and> s_buffering s);
              s1 = (if ready then s\<lparr>s_buffering := False\<rparr> else s);
              s2 = s1\<lparr>s_played := s_played s1 + word_of_int in_size\<rparr>;
              out = (if m_first m
                     then mix_init vmax (s_volume s) (r_data rd) (nat in_size) (m_out_buffer m)
                     else mix_add vmax (s_volume s) (r_data rd) (nat in_size) (m_out_buffer m))
          in (s2, \<lparr>m_out_buffer = out, m_out_size = in_size, m_first = False\<rparr>,
              if ready then notify s STREAM_EVENT_READY else []))"

text \<open>The loop over the list; \<open>rd i\<close> is the read outcome for the stream at position \<open>i\<close>.\<close>

fun mix_loop ::
  "int \<Rightarrow> (nat \<Rightarrow> read_outcome) \<Rightarrow> nat \<Rightarrow> output_stream list \<Rightarrow> mix_state
     \<Rightarrow> output_stream list \<times> mix_state \<times> effect list" where
  "mix_loop vmax rd i [] m = ([], m, [])"
| "mix_loop vmax rd i (s # ss) m =
     (case mix_stream vmax s (rd i) m of
        (s', m', es) \<Rightarrow>
          (case mix_loop vmax rd (Suc i) ss m' of
             (ss', m'', es') \<Rightarrow> (s' # ss', m'', es @ es')))"

text \<open>
  \<^verbatim>\<open>output_alsa_mix_streams\<close>: \<^verbatim>\<open>out_size = 0; first = 1;\<close>, the loop, and
  \<^verbatim>\<open>return out_size;\<close>. The result is the returned count, the output with its streams
  updated, the output buffer and the effects in the order they happened.
\<close>

definition output_alsa_mix_streams ::
  "int \<Rightarrow> (nat \<Rightarrow> read_outcome) \<Rightarrow> output_t \<Rightarrow> sample list
     \<Rightarrow> int \<times> output_t \<times> sample list \<times> effect list" where
  "output_alsa_mix_streams vmax rd h out_buffer =
     (case mix_loop vmax rd 0 (o_streams h)
             \<lparr>m_out_buffer = out_buffer, m_out_size = 0, m_first = True\<rparr> of
        (ss, m, es) \<Rightarrow> (m_out_size m, h\<lparr>o_streams := ss\<rparr>, m_out_buffer m, es))"

subsection \<open>The other calls on a stream\<close>

text \<open>
  The fields of the stream after the remaining functions that assign to them. Their
  calls into the cache and the resampler (\<^verbatim>\<open>cache_unlock\<close>, \<^verbatim>\<open>cache_flush\<close>,
  \<^verbatim>\<open>resample_flush\<close>, \<^verbatim>\<open>cache_set_time\<close>) change the state of those modules and
  no field of the stream. \<open>ret\<close> is the result of \<^verbatim>\<open>cache_set_time\<close>.
\<close>

definition output_alsa_play_stream :: "output_stream \<Rightarrow> output_stream" where
  "output_alsa_play_stream s = s\<lparr>s_is_playing := True\<rparr>"

definition output_alsa_pause_stream :: "output_stream \<Rightarrow> output_stream" where
  "output_alsa_pause_stream s = s\<lparr>s_is_playing := False\<rparr>"

definition output_alsa_flush_stream :: "output_stream \<Rightarrow> output_stream" where
  "output_alsa_flush_stream s = s\<lparr>s_played := 0\<rparr>"

definition output_alsa_set_volume_stream :: "output_stream \<Rightarrow> uint \<Rightarrow> output_stream" where
  "output_alsa_set_volume_stream s volume = s\<lparr>s_volume := volume\<rparr>"

definition output_alsa_set_cache_stream :: "int \<Rightarrow> output_stream \<Rightarrow> ulong \<Rightarrow> output_stream" where
  "output_alsa_set_cache_stream ret s cache = (if ret = 0 then s\<lparr>s_delay := cache\<rparr> else s)"

definition output_alsa_set_stream_event_cb ::
  "output_stream \<Rightarrow> handle option \<Rightarrow> handle \<Rightarrow> output_stream" where
  "output_alsa_set_stream_event_cb s cb user_data = s\<lparr>s_event_cb := cb, s_event_ud := user_data\<rparr>"

section \<open>cache.c\<close>

subsection \<open>Formats\<close>

text \<open>
  Modelled from the spec: \<^verbatim>\<open>struct a_format\<close>, \<^verbatim>\<open>A_FORMAT_INIT\<close>, \<^verbatim>\<open>format_cmp\<close> and
  \<^verbatim>\<open>format_cpy\<close> are declared in a header that is not part of the sources at hand.
  A format is (samplerate: u32, channels: u8); (0,0) is the unspecified format;
  equality is field-wise. \<^verbatim>\<open>format_cmp\<close> returns 0 for equal formats (the code
  tests \<^verbatim>\<open>format_cmp(...) != 0\<close> for a change), \<^verbatim>\<open>format_cpy\<close> overwrites its first
  argument with its second.
\<close>

record a_format =
  samplerate :: uint
  channels :: uchar

text \<open>Modelled from the spec: \<^verbatim>\<open>A_FORMAT_INIT\<close>, the unspecified format (0,0).\<close>

definition A_FORMAT_INIT :: a_format where
  "A_FORMAT_INIT = \<lparr>samplerate = 0, channels = 0\<rparr>"

text \<open>
  Modelled from the spec: \<^verbatim>\<open>format_cmp\<close>, field-wise equality; a zero field is
  unequal to any nonzero field. 0 stands for equal formats.
\<close>

definition format_cmp :: "a_format \<Rightarrow> a_format \<Rightarrow> int" where
  "format_cmp a b = (if samplerate a = samplerate b \<and> channels a = channels b then 0 else 1)"

text \<open>Modelled from the spec: \<^verbatim>\<open>format_cpy(dst, src)\<close>, the copy of a format.\<close>

definition format_cpy :: "a_format \<Rightarrow> a_format \<Rightarrow> a_format" where
  "format_cpy dst src = src"

subsection \<open>The cache and its format list\<close>

text \<open>
  \<^verbatim>\<open>struct cache_format\<close> (prefix \<open>cf_\<close>) and \<^verbatim>\<open>struct cache_handle\<close> (prefix
  \<open>c_\<close>). The singly linked list from \<^verbatim>\<open>fmt_first\<close> to \<^verbatim>\<open>fmt_last\<close> is the list
  \<open>c_fmt_list\<close>: \<^verbatim>\<open>fmt_first\<close> is its head, \<^verbatim>\<open>fmt_last\<close> its last element, and both
  are NULL when it is empty. \<^verbatim>\<open>cache_read\<close> removes the head only when it has a
  successor and \<^verbatim>\<open>cache_flush\<close> resets both pointers, so \<^verbatim>\<open>fmt_last\<close> never
  outlives its entry. \<open>c_buffer\<close> is the array of \<^verbatim>\<open>size\<close> samples, \<open>None\<close> when the
  pointer is NULL. \<open>c_input_lock\<close> tells whether the mutex \<^verbatim>\<open>input_lock\<close> is held;
  the sections under \<^verbatim>\<open>mutex\<close> are the atomic steps of the model.
\<close>

record cache_format =
  cf_fmt :: a_format
  cf_len :: ulong

record cache_handle =
  c_use_thread :: bool
  c_buffer :: "sample list option"
  c_size :: ulong
  c_len :: ulong
  c_pos :: ulong
  c_is_ready :: bool
  c_fmt_list :: "cache_format list"
  c_fmt_len :: ulong
  c_input_lock :: bool
  c_flush :: bool
  c_stop :: bool

text \<open>
  What a call of \<^verbatim>\<open>input_callback(user_data, buf, max, &in_fmt)\<close> did: the value it
  returned, the samples it stored at \<^verbatim>\<open>buf\<close>, and the contents of \<^verbatim>\<open>in_fmt\<close> after
  the call.
\<close>

record cb_outcome =
  cb_ret :: int
  cb_data :: "sample list"
  cb_fmt :: a_format

text \<open>
  \<^verbatim>\<open>memcpy(&dst[off*4], src, n*4)\<close> on arrays of samples. A copy that leaves the
  destination array is undefined in C; the model is exact for \<open>off + n \<le> length dst\<close>
  and \<open>n \<le> length src\<close>.
\<close>

definition memcpy_at :: "sample list \<Rightarrow> nat \<Rightarrow> sample list \<Rightarrow> nat \<Rightarrow> sample list" where
  "memcpy_at dst off src n = take off dst @ take n src @ drop (off + n) dst"

text \<open>The conversion of a \<^verbatim>\<open>size_t\<close> to the \<^verbatim>\<open>int\<close> that \<^verbatim>\<open>cache_read\<close> returns.\<close>

definition to_int :: "ulong \<Rightarrow> int" where
  "to_int n = sint (ucast n :: 32 word)"

text \<open>
  \<^verbatim>\<open>cache_open\<close>. \<open>has_cb\<close> tells whether \<^verbatim>\<open>input_callback\<close> is not NULL, \<open>res_ok\<close>
  whether the allocations and \<^verbatim>\<open>pthread_create\<close> succeed. The function does not
  initialise \<^verbatim>\<open>flush\<close>; \<open>flush0\<close> is the value the field happens to hold. The
  contents of the fresh buffer are indeterminate in C and zero here. \<open>None\<close> is the
  return value \<open>-1\<close>.
\<close>

definition cache_open :: "ulong \<Rightarrow> bool \<Rightarrow> bool \<Rightarrow> bool \<Rightarrow> bool \<Rightarrow> cache_handle option" where
  "cache_open sz use_thread has_cb res_ok flush0 =
     (if sz = 0 \<or> \<not> has_cb then None
      else if \<not> res_ok then None
      else Some \<lparr>c_use_thread = use_thread,
                 c_buffer = Some (replicate (unat (sz * 4) div 4) 0),
                 c_size = sz, c_len = 0, c_pos = 0, c_is_ready = False,
                 c_fmt_list = [], c_fmt_len = 0,
                 c_input_lock = False, c_flush = flush0, c_stop = False\<rparr>)"

definition cache_is_ready :: "cache_handle \<Rightarrow> bool" where
  "cache_is_ready h = c_is_ready h"

definition cache_get_filling :: "cache_handle \<Rightarrow> uchar option" where
  "cache_get_filling h =
     (if c_is_ready h then Some 100
      else if c_size h = 0 then None
      else Some (ucast (c_len h * 100 div c_size h)))"

text \<open>
  \<^verbatim>\<open>cache_put_format\<close>; \<open>alloc_ok\<close> tells whether \<^verbatim>\<open>malloc\<close> succeeds. The new entry
  records \<^verbatim>\<open>fmt_len\<close>, the number of samples stored under the previous format.
\<close>

definition cache_put_format :: "cache_handle \<Rightarrow> a_format \<Rightarrow> bool \<Rightarrow> int \<times> cache_handle" where
  "cache_put_format h fmt alloc_ok =
     (if \<not> alloc_ok then (- 1, h)
      else (0, h\<lparr>c_fmt_list := c_fmt_list h @ [\<lparr>cf_fmt = format_cpy A_FORMAT_INIT fmt,
                                                 cf_len = c_fmt_len h\<rparr>],
                 c_fmt_len := 0\<rparr>))"

definition cache_get_format :: "cache_handle \<Rightarrow> cache_handle" where
  "cache_get_format h =
     (case c_fmt_list h of [] \<Rightarrow> h | cf # rest \<Rightarrow> h\<lparr>c_fmt_list := rest\<rparr>)"

text \<open>
  \<^verbatim>\<open>cache_lock\<close> blocks while the mutex is held; in a sequential run it then never
  returns, which is \<open>None\<close>. \<^verbatim>\<open>pthread_mutex_trylock\<close> succeeds iff the mutex is free.
\<close>

definition cache_lock :: "cache_handle \<Rightarrow> cache_handle option" where
  "cache_lock h = (if c_input_lock h then None else Some (h\<lparr>c_input_lock := True\<rparr>))"

definition cache_unlock :: "cache_handle \<Rightarrow> cache_handle" where
  "cache_unlock h = h\<lparr>c_input_lock := False\<rparr>"

text \<open>
  The statements that end both producers (the thread and the refill of
  \<^verbatim>\<open>cache_read\<close>), after \<^verbatim>\<open>h->len\<close> was raised by \<open>k\<close>:
  \<^verbatim>\<open>if(h->fmt_last == NULL || ((in_fmt.samplerate != 0 || in_fmt.channels != 0) &&
  format_cmp(&in_fmt, &h->fmt_last->fmt) != 0)) cache_put_format(h, &in_fmt);
  h->fmt_len += k; if(h->len == h->size) h->is_ready = 1;\<close>
  The result of \<^verbatim>\<open>cache_put_format\<close> is ignored.
\<close>

definition update_format_list :: "cache_handle \<Rightarrow> a_format \<Rightarrow> ulong \<Rightarrow> bool \<Rightarrow> cache_handle" where
  "update_format_list h in_fmt k alloc_ok =
     (let h1 = (if c_fmt_list h = [] \<or>
                   ((samplerate in_fmt \<noteq> 0 \<or> channels in_fmt \<noteq> 0) \<and>
                    format_cmp in_fmt (cf_fmt (last (c_fmt_list h))) \<noteq> 0)
                then snd (cache_put_format h in_fmt alloc_ok) else h);
          h2 = h1\<lparr>c_fmt_len := c_fmt_len h1 + k\<rparr>
      in if c_len h2 = c_size h2 then h2\<lparr>c_is_ready := True\<rparr> else h2)"

subsection \<open>The producer thread\<close>

text \<open>
  The local variables of \<^verbatim>\<open>cache_read_thread\<close>: \<^verbatim>\<open>in_fmt\<close>, the staging array
  \<^verbatim>\<open>buffer\<close> of \<^verbatim>\<open>BUFFER_SIZE / 4\<close> samples and the count \<^verbatim>\<open>len\<close> of staged samples.
\<close>

record thread_locals =
  t_in_fmt :: a_format
  t_buffer :: "sample list"
  t_len :: ulong

definition BUFFER_SIZE :: ulong where
  "BUFFER_SIZE = 8192"

text \<open>
  The section of the thread's loop under \<^verbatim>\<open>mutex\<close>: as many staged samples as fit
  are appended to the cache, then the format list is updated.
\<close>

definition cache_thread_put :: "cache_handle \<Rightarrow> thread_locals \<Rightarrow> bool \<Rightarrow> cache_handle \<times> thread_locals \<times> ulong" where
  "cache_thread_put h t alloc_ok =
     (let in_size0 = c_size h - c_len h;
          in_size = (if in_size0 > t_len t then t_len t else in_size0);
          h1 = h\<lparr>c_buffer := map_option (\<lambda>b. memcpy_at b (unat (c_len h)) (t_buffer t) (unat in_size))
                                         (c_buffer h),
                 c_len := c_len h + in_size\<rparr>;
          t1 = t\<lparr>t_len := t_len t - in_size\<rparr>
      in (update_format_list h1 (t_in_fmt t) in_size alloc_ok, t1, in_size))"

text \<open>
  One iteration of \<^verbatim>\<open>while(!h->stop)\<close>. The result is \<open>None\<close> when \<^verbatim>\<open>cache_lock\<close>
  never returns; otherwise the flag tells whether the loop goes on. A negative return
  of the callback leaves the loop by \<^verbatim>\<open>break\<close>, with the input lock held.
\<close>

definition cache_read_thread_iter ::
  "cache_handle \<Rightarrow> thread_locals \<Rightarrow> cb_outcome \<Rightarrow> bool \<Rightarrow> (bool \<times> cache_handle \<times> thread_locals) option" where
  "cache_read_thread_iter h t cb alloc_ok =
     (if c_stop h then Some (False, h, t)
      else case cache_lock h of
        None \<Rightarrow> None
      | Some h1 \<Rightarrow>
          let (h2, t2) = (if c_flush h1 then (h1\<lparr>c_flush := False\<rparr>, t\<lparr>t_len := 0\<rparr>) else (h1, t));
              called = (t_len t2 < BUFFER_SIZE div 4);
              t3 = (if called
                    then t2\<lparr>t_buffer := memcpy_at (t_buffer t2) (unat (t_len t2)) (cb_data cb)
                                            (length (cb_data cb)),
                            t_in_fmt := cb_fmt cb\<rparr>
                    else t2)
          in if called \<and> cb_ret cb < 0 then Some (False, h2, t3)
             else
               let t4 = (if called then t3\<lparr>t_len := t_len t3 + word_of_int (cb_ret cb)\<rparr> else t3);
                   (h3, t5, in_size) = cache_thread_put h2 t4 alloc_ok;
                   t6 = (if t_len t5 > 0
                         then t5\<lparr>t_buffer := memcpy_at (t_buffer t5) 0
                                                 (drop (unat in_size) (t_buffer t5)) (unat (t_len t5))\<rparr>
                         else t5)
               in Some (True, cache_unlock h3, t6))"

subsection \<open>Reading\<close>

text \<open>
  The section of \<^verbatim>\<open>cache_read\<close> under \<^verbatim>\<open>mutex\<close>. \<open>b\<close> is the cache's array,
  \<open>buffer\<close> the caller's, \<open>sz\<close> the requested count and \<open>fmt\<close> the caller's format
  variable. The result is the count that was copied, the caller's array and format
  afterwards, and the cache. When the successor of the current format starts before
  the end of the request, the request is cut there and \<^verbatim>\<open>cache_get_format\<close> drops the
  current format; \<^verbatim>\<open>next_fmt\<close> is then the head of the list.
\<close>

definition cache_read_locked ::
  "cache_handle \<Rightarrow> sample list \<Rightarrow> sample list \<Rightarrow> ulong \<Rightarrow> a_format
     \<Rightarrow> ulong \<times> sample list \<times> a_format \<times> cache_handle" where
  "cache_read_locked h b buffer sz fmt =
     (if c_is_ready h then
        let sz1 = (if sz > c_len h then c_len h else sz);
            (sz2, fmt', fl, fmt_len') =
              (case c_fmt_list h of
                 [] \<Rightarrow> (sz1, fmt, [], c_fmt_len h)
               | cf # rest \<Rightarrow>
                   (case rest of
                      [] \<Rightarrow> (sz1, format_cpy fmt (cf_fmt cf), [cf], c_fmt_len h - sz1)
                    | next_fmt # rest' \<Rightarrow>
                        if cf_len next_fmt < sz1
                        then (cf_len next_fmt, format_cpy fmt (cf_fmt cf),
                              (c_fmt_list (cache_get_format h))
                                [0 := next_fmt\<lparr>cf_len := cf_len next_fmt - cf_len next_fmt\<rparr>],
                              c_fmt_len h)
                        else (sz1, format_cpy fmt (cf_fmt cf),
                              cf # next_fmt\<lparr>cf_len := cf_len next_fmt - sz1\<rparr> # rest',
                              c_fmt_len h)));
            len' = c_len h - sz2
        in (sz2, memcpy_at buffer 0 b (unat sz2), fmt',
            h\<lparr>c_buffer := Some (memcpy_at b 0 (drop (unat sz2) b) (unat len')),
              c_len := len', c_fmt_list := fl, c_fmt_len := fmt_len',
              c_is_ready := (if len' = 0 then False else c_is_ready h)\<rparr>)
      else (0, buffer, fmt, h))"

text \<open>
  The rest of \<^verbatim>\<open>cache_read\<close>, after \<^verbatim>\<open>mutex\<close> was released: without a producer
  thread and with room in the cache, the consumer tries to take the input lock and
  calls the input callback itself. \<open>sz\<close> is the count the first part copied. On a
  negative return of the callback the function returns at once.
\<close>

definition cache_read_refill :: "cache_handle \<Rightarrow> ulong \<Rightarrow> cb_outcome \<Rightarrow> bool \<Rightarrow> int \<times> cache_handle" where
  "cache_read_refill h sz cb alloc_ok =
     (if \<not> c_use_thread h \<and> c_len h < c_size h then
        if c_input_lock h then (to_int sz, h)
        else
          let h1 = h\<lparr>c_input_lock := True\<rparr>;
              h2 = h1\<lparr>c_buffer := map_option (\<lambda>b. memcpy_at b (unat (c_len h1)) (cb_data cb)
                                                      (length (cb_data cb))) (c_buffer h1)\<rparr>;
              len = cb_ret cb
          in if len < 0 then (if c_len h2 = 0 then (- 1, h2) else (to_int sz, h2))
             else
               let h3 = h2\<lparr>c_len := c_len h2 + word_of_int len\<rparr>;
                   h4 = update_format_list h3 (cb_fmt cb) (word_of_int len) alloc_ok
               in (to_int sz, cache_unlock h4)
      else (to_int sz, h))"

text \<open>
  \<^verbatim>\<open>cache_read\<close>. The result is the returned \<^verbatim>\<open>int\<close>, the caller's array and format
  variable afterwards, and the cache.
\<close>

definition cache_read ::
  "cache_handle option \<Rightarrow> sample list \<Rightarrow> ulong \<Rightarrow> a_format \<Rightarrow> cb_outcome \<Rightarrow> bool
     \<Rightarrow> int \<times> sample list \<times> a_format \<times> cache_handle option" where
  "cache_read ho buffer sz fmt cb alloc_ok =
     (case ho of
        None \<Rightarrow> (- 1, buffer, fmt, None)
      | Some h \<Rightarrow>
          (case c_buffer h of
             None \<Rightarrow> (- 1, buffer, fmt, Some h)
           | Some b \<Rightarrow>
               (case cache_read_locked h b buffer sz fmt of
                  (sz', buffer', fmt', h') \<Rightarrow>
                    (case cache_read_refill h' sz' cb alloc_ok of
                       (r, h'') \<Rightarrow> (r, buffer', fmt', Some h'')))))"

subsection \<open>Flushing\<close>

text \<open>
  \<^verbatim>\<open>cache_flush\<close> takes the input lock and keeps it, clears \<^verbatim>\<open>is_ready\<close> and
  \<^verbatim>\<open>len\<close>, frees the format list, resets \<^verbatim>\<open>fmt_last\<close> and notifies the thread.
  It does not assign \<^verbatim>\<open>fmt_len\<close>.
\<close>

definition cache_flush :: "cache_handle \<Rightarrow> cache_handle option" where
  "cache_flush h =
     (case cache_lock h of
        None \<Rightarrow> None
      | Some h1 \<Rightarrow>
          Some (h1\<lparr>c_is_ready := False, c_len := 0, c_fmt_list := [],
                   c_flush := (if c_use_thread h1 then True else c_flush h1)\<rparr>))"

section \<open>Notions used to state the properties\<close>

subsection \<open>One stream across successive runs of the mixer\<close>

text \<open>
  The part of one stream in successive runs of \<^verbatim>\<open>output_alsa_mix_streams\<close>: in each
  run the stream meets the outcome of its read and the mix state that the streams
  before it in the list have left. The result is the stream afterwards and the effects
  it caused, in order.
\<close>

fun stream_run ::
  "int \<Rightarrow> output_stream \<Rightarrow> (read_outcome \<times> mix_state) list \<Rightarrow> output_stream \<times> effect list" where
  "stream_run vmax s [] = (s, [])"
| "stream_run vmax s ((rd, m) # steps) =
     (case mix_stream vmax s rd m of
        (s', m', es) \<Rightarrow>
          (case stream_run vmax s' steps of (s'', es') \<Rightarrow> (s'', es @ es')))"

text \<open>The events that were passed to event callbacks, in order.\<close>

fun events_of :: "effect list \<Rightarrow> stream_event list" where
  "events_of [] = []"
| "events_of (Event_cb cb ud e # es) = e # events_of es"
| "events_of (Cache_close c # es) = events_of es"
| "events_of (Resample_close r # es) = events_of es"

text \<open>
  The edges of a sequence of read results, in the words of the specification. \<open>u\<close>
  tells whether the stream is in underflow before the sequence starts. An underflow
  edge is a read that returns 0 when the stream was not in underflow (it delivered data
  at the read before, or has just started); a refill edge is a read that delivers data
  when the stream was in underflow.
\<close>

fun underflow_edges :: "bool \<Rightarrow> int list \<Rightarrow> nat" where
  "underflow_edges u [] = 0"
| "underflow_edges u (r # rs) = (if r = 0 \<and> \<not> u then 1 else 0) + underflow_edges (r = 0) rs"

fun refill_edges :: "bool \<Rightarrow> int list \<Rightarrow> nat" where
  "refill_edges u [] = 0"
| "refill_edges u (r # rs) = (if r \<noteq> 0 \<and> u then 1 else 0) + refill_edges (r = 0) rs"

text \<open>The first event a stream can emit next is END, or the edge opposite to its state.\<close>

definition next_event_ok :: "output_stream \<Rightarrow> stream_event list \<Rightarrow> bool" where
  "next_event_ok s evs \<longleftrightarrow>
     (case evs of
        [] \<Rightarrow> True
      | e # _ \<Rightarrow> e = STREAM_EVENT_END \<or>
                 e = (if s_buffering s then STREAM_EVENT_READY else STREAM_EVENT_BUFFERING))"

subsection \<open>Calls on a stream between an abort and a write\<close>

text \<open>
  The calls of the module that assign to fields of a stream that is still in the list
  (a run of the mixer over the stream among them), and the stream after such a call.
\<close>

datatype stream_call =
  Play
  | Pause
  | Flush
  | Set_volume uint
  | Set_cache int ulong
  | Set_event_cb "handle option" handle
  | Restore ulong
  | Mix read_outcome mix_state

fun stream_after :: "int \<Rightarrow> output_t \<Rightarrow> output_stream \<Rightarrow> stream_call \<Rightarrow> output_stream" where
  "stream_after vmax h s Play = output_alsa_play_stream s"
| "stream_after vmax h s Pause = output_alsa_pause_stream s"
| "stream_after vmax h s Flush = output_alsa_flush_stream s"
| "stream_after vmax h s (Set_volume v) = output_alsa_set_volume_stream s v"
| "stream_after vmax h s (Set_cache ret c) = output_alsa_set_cache_stream ret s c"
| "stream_after vmax h s (Set_event_cb cb ud) = output_alsa_set_stream_event_cb s cb ud"
| "stream_after vmax h s (Restore v) = output_alsa_restore_stream h s v"
| "stream_after vmax h s (Mix rd m) = fst (mix_stream vmax s rd m)"

subsection \<open>The invariant of the cache\<close>

text \<open>
  The invariant in the words of the specification: \<^verbatim>\<open>len\<close> is at most \<^verbatim>\<open>size\<close>;
  \<^verbatim>\<open>is_ready\<close> holds iff \<^verbatim>\<open>len > 0\<close> and the high-water mark was reached since the
  cache was last drained to empty (\<open>hw\<close>); the lengths stored in the format segments
  plus \<^verbatim>\<open>fmt_len\<close> add up to \<^verbatim>\<open>len\<close>.
\<close>

definition segments_sum :: "cache_handle \<Rightarrow> nat" where
  "segments_sum h = sum_list (map (\<lambda>cf. unat (cf_len cf)) (c_fmt_list h)) + unat (c_fmt_len h)"

definition cache_inv :: "bool \<Rightarrow> cache_handle \<Rightarrow> bool" where
  "cache_inv hw h \<longleftrightarrow>
     c_len h \<le> c_size h \<and>
     (c_is_ready h \<longleftrightarrow> (0 < c_len h \<and> hw)) \<and>
     segments_sum h = unat (c_len h)"

text \<open>
  The invariant that the states reached from \<^verbatim>\<open>cache_open\<close> satisfy without a flush:
  the invariant above, a nonzero size, a positive \<^verbatim>\<open>len\<close> while the high-water
  flag holds, an empty cache while the format list is empty, and a head segment with
  stored length 0.
\<close>

definition cache_reach :: "bool \<Rightarrow> cache_handle \<Rightarrow> bool" where
  "cache_reach hw h \<longleftrightarrow>
     cache_inv hw h \<and> c_size h \<noteq> 0 \<and> (hw \<longrightarrow> 0 < c_len h) \<and>
     (case c_fmt_list h of [] \<Rightarrow> c_len h = 0 | cf # _ \<Rightarrow> cf_len cf = 0)"

subsection \<open>The format segments of the cache\<close>

text \<open>
  The number of samples that the cache holds under the format at the head of the list.
  The length stored in the successor of the head tells where the next format starts;
  when the head has no successor, all the samples counted by \<^verbatim>\<open>fmt_len\<close> belong to
  it.
\<close>

definition head_frames :: "cache_handle \<Rightarrow> ulong" where
  "head_frames h =
     (case c_fmt_list h of
        [] \<Rightarrow> c_len h
      | cf # rest \<Rightarrow> (case rest of [] \<Rightarrow> c_fmt_len h | nf # rest' \<Rightarrow> cf_len nf))"

text \<open>
  The bookkeeping of the segments: \<^verbatim>\<open>len\<close> is at most \<^verbatim>\<open>size\<close>, an empty list comes
  with an empty cache, and the lengths stored in the segments after the head plus
  \<^verbatim>\<open>fmt_len\<close> add up to \<^verbatim>\<open>len\<close>. The length stored in the head itself is left
  out: \<^verbatim>\<open>cache_read\<close> never reads it, and after a flush it holds a stale
  \<^verbatim>\<open>fmt_len\<close>.
\<close>

definition segments_ok :: "cache_handle \<Rightarrow> bool" where
  "segments_ok h \<longleftrightarrow>
     c_len h \<le> c_size h \<and>
     (case c_fmt_list h of
        [] \<Rightarrow> c_len h = 0
      | cf # rest \<Rightarrow> sum_list (map (\<lambda>c. unat (cf_len c)) rest) + unat (c_fmt_len h) = unat (c_len h))"

section \<open>Properties of the mixer arithmetic\<close>

lemma sint_output_alsa_add:
  "sint (output_alsa_add a b) = max (- 2147483648) (min 2147483647 (sint a + sint b))"
  unfolding output_alsa_add_def Let_def
  by (auto simp: sint_sbintrunc' signed_take_bit_int_eq_self)

lemma sdiv_mult_self:
  fixes k :: int
  assumes "0 < l"
  shows "(k * l) sdiv l = k"
proof -
  have "\<bar>k * l\<bar> div \<bar>l\<bar> = \<bar>k\<bar>"
    using assms by (simp add: abs_mult)
  moreover have "sgn (k * l) * sgn l = sgn k"
    using assms by (simp add: sgn_mult)
  ultimately have "(k * l) sdiv l = sgn k * \<bar>k\<bar>"
    by (simp add: signed_divide_int_def)
  then show ?thesis by (simp add: mult_sgn_abs)
qed

lemma output_alsa_vol_full:
  assumes "0 < vmax" "vmax < 2 ^ 32"
  shows "output_alsa_vol vmax x (word_of_int vmax) = x"
proof -
  have "uint (word_of_int vmax :: uint) = vmax"
    using assms by (simp add: uint_word_of_int take_bit_int_eq_self)
  then show ?thesis
    using assms by (simp add: output_alsa_vol_def sdiv_mult_self)
qed

text \<open>Scaling by a volume of at most \<open>vmax\<close> moves a sample towards zero.\<close>

lemma sdiv_scale_bounds:
  fixes k :: int
  assumes "0 < l" "0 \<le> m" "m \<le> l"
  shows "min 0 k \<le> (k * m) sdiv l \<and> (k * m) sdiv l \<le> max 0 k"
proof -
  have "\<bar>k\<bar> * m \<le> \<bar>k\<bar> * l"
    using assms by (simp add: mult_left_mono)
  then have "\<bar>k\<bar> * m div l \<le> \<bar>k\<bar> * l div l"
    using assms(1) by (rule zdiv_mono1)
  then have le: "\<bar>k * m\<bar> div \<bar>l\<bar> \<le> \<bar>k\<bar>" using assms by (simp add: abs_mult)
  have nn: "0 \<le> \<bar>k * m\<bar> div \<bar>l\<bar>" using assms
    by (simp add: pos_imp_zdiv_nonneg_iff)
  show ?thesis
  proof (cases "0 \<le> k")
    case True
    then have "sgn (k * m) * sgn l = 1 \<or> sgn (k * m) * sgn l = 0"
      using assms by (auto simp: sgn_mult sgn_if)
    then show ?thesis using le nn True
      by (auto simp: signed_divide_int_def)
  next
    case False
    then have "k * m \<le> 0"
      using assms by (simp add: mult_nonpos_nonneg)
    then have "sgn (k * m) * sgn l = - 1 \<or> sgn (k * m) * sgn l = 0"
      using assms by (auto simp: sgn_if)
    then show ?thesis using le nn False
      by (auto simp: signed_divide_int_def)
  qed
qed

lemma sint_output_alsa_vol:
  assumes "0 < vmax" "uint v \<le> vmax"
  shows "sint (output_alsa_vol vmax x v) = (sint x * uint v) sdiv vmax"
proof -
  have b: "min 0 (sint x) \<le> (sint x * uint v) sdiv vmax \<and>
           (sint x * uint v) sdiv vmax \<le> max 0 (sint x)"
    using assms by (intro sdiv_scale_bounds) simp_all
  have "- (2 ^ 31) \<le> sint x" "sint x < 2 ^ 31"
    using sint_ge [of x] sint_lt [of x] by simp_all
  then have r: "- (2 ^ 31) \<le> (sint x * uint v) sdiv vmax \<and> (sint x * uint v) sdiv vmax < 2 ^ 31"
    using b by linarith
  then show ?thesis
    by (simp add: output_alsa_vol_def sint_sbintrunc' signed_take_bit_int_eq_self)
qed

text \<open>
  Two streams at full volume that both deliver the sample \<open>INT32_MAX\<close>, through the
  mixing loop: the first initialises the output sample, the second is added to it.
\<close>

lemma mix_two_full_volume:
  assumes "0 < vmax" "vmax < 2 ^ 32"
    and "s_is_playing s1" "\<not> s_end_of_stream s1" "s_cache s1 \<noteq> None"
      "s_volume s1 = word_of_int vmax"
    and "s_is_playing s2" "\<not> s_end_of_stream s2" "s_cache s2 \<noteq> None"
      "s_volume s2 = word_of_int vmax"
    and "rd 0 = \<lparr>r_ret = 1, r_data = [INT32_MAX]\<rparr>" "rd 1 = \<lparr>r_ret = 1, r_data = [INT32_MAX]\<rparr>"
  shows "fst (snd (snd (output_alsa_mix_streams vmax rd (h\<lparr>o_streams := [s1, s2]\<rparr>) [x])))
           = [INT32_MAX]"
  using assms
  apply (clarsimp simp: output_alsa_mix_streams_def mix_stream_def mix_init_def mix_add_def
      output_alsa_vol_full Let_def)
  apply (simp add: output_alsa_add_def INT32_MAX_def)
  done

text \<open>
  C5. In the integer build, two samples \<open>INT32_MAX\<close> scaled at full volume add up to
  \<open>INT32_MAX\<close>: the sum saturates. In general the sample that results from scaling
  \<open>x\<close> by \<open>v\<close> and adding it to \<open>a\<close> is the exact sum of \<open>a\<close> and the scaled sample,
  clamped into the range from \<open>INT32_MIN\<close> to \<open>INT32_MAX\<close>; and for a volume of at
  most \<open>vmax\<close> the scaled sample is exactly \<open>x * v / vmax\<close>, rounded towards zero.
\<close>

theorem mixer_saturation:
  assumes "0 < vmax" "vmax < 2 ^ 32"
  shows "output_alsa_add (output_alsa_vol vmax INT32_MAX (word_of_int vmax))
                         (output_alsa_vol vmax INT32_MAX (word_of_int vmax)) = INT32_MAX
       \<and> sint (output_alsa_add a (output_alsa_vol vmax x v))
           = max (sint INT32_MIN) (min (sint INT32_MAX) (sint a + sint (output_alsa_vol vmax x v)))
       \<and> (uint v \<le> vmax \<longrightarrow> sint (output_alsa_vol vmax x v) = (sint x * uint v) sdiv vmax)"
proof (intro conjI impI)
  show "output_alsa_add (output_alsa_vol vmax INT32_MAX (word_of_int vmax))
          (output_alsa_vol vmax INT32_MAX (word_of_int vmax)) = INT32_MAX"
    using assms by (simp add: output_alsa_vol_full) (simp add: output_alsa_add_def INT32_MAX_def)
  show "sint (output_alsa_add a (output_alsa_vol vmax x v))
          = max (sint INT32_MIN) (min (sint INT32_MAX) (sint a + sint (output_alsa_vol vmax x v)))"
    by (simp add: sint_output_alsa_add INT32_MIN_def INT32_MAX_def)
  show "sint (output_alsa_vol vmax x v) = (sint x * uint v) sdiv vmax" if "uint v \<le> vmax"
    using assms(1) that by (rule sint_output_alsa_vol)
qed

theorem mixer_saturation_witness:
  "(0::int) < 65535 \<and> (65535::int) < 2 ^ 32
   \<and> output_alsa_add (output_alsa_vol 65535 INT32_MAX (word_of_int 65535))
                      (output_alsa_vol 65535 INT32_MAX (word_of_int 65535)) = INT32_MAX
   \<and> sint (output_alsa_add 2000000000 (output_alsa_vol 65535 1000000000 32768))
       = max (sint INT32_MIN) (min (sint INT32_MAX)
           (sint (2000000000 :: sample) + sint (output_alsa_vol 65535 1000000000 32768)))
   \<and> uint (32768 :: uint) \<le> 65535
   \<and> sint (output_alsa_vol 65535 1000000000 32768)
       = (sint (1000000000 :: sample) * uint (32768 :: uint)) sdiv 65535"
proof -
  have pos: "(0::int) < 65535" and small: "(65535::int) < 2 ^ 32" by simp_all
  show ?thesis
    using mixer_saturation [OF pos small, of 2000000000 1000000000 32768] by simp
qed

section \<open>The played counter across abort and restore\<close>

lemma played_roundtrip_nat:
  fixes K s :: nat
  assumes "0 < s"
  shows "K * s div 1000 * 1000 div s \<le> K"
    and "(K * s div 1000 * 1000 div s = K) = (1000 dvd K * s)"
    and "1000 \<le> s \<Longrightarrow> K \<le> K * s div 1000 * 1000 div s + 1"
proof -
  let ?p = "K * s div 1000"
  have le: "?p * 1000 \<le> K * s" by simp
  then have "?p * 1000 div s \<le> K * s div s" by (rule div_le_mono)
  then show "?p * 1000 div s \<le> K" using assms by simp
  show "(?p * 1000 div s = K) = (1000 dvd K * s)"
  proof
    assume "?p * 1000 div s = K"
    then have "K * s = ?p * 1000 div s * s" by simp
    also have "\<dots> \<le> ?p * 1000" by simp
    finally have "K * s \<le> ?p * 1000" .
    with le have "?p * 1000 = K * s" by simp
    then show "1000 dvd K * s" by (metis dvd_triv_right)
  next
    assume "1000 dvd K * s"
    then have "?p * 1000 = K * s" by simp
    then show "?p * 1000 div s = K" using assms by simp
  qed
  show "K \<le> ?p * 1000 div s + 1" if s: "1000 \<le> s"
  proof (cases K)
    case 0
    then show ?thesis by simp
  next
    case (Suc k)
    have "K * s < ?p * 1000 + 1000"
      using div_mult_mod_eq [of "K * s" 1000] mod_less_divisor [of 1000 "K * s"] by linarith
    then have "K * s < ?p * 1000 + s" using s by simp
    then have "k * s < ?p * 1000" using Suc by simp
    then have "k * s div s \<le> ?p * 1000 div s" by (intro div_le_mono) simp
    then show ?thesis using assms Suc by simp
  qed
qed

text \<open>Without overflow of the 64-bit product, the words compute the quotients on \<open>nat\<close>.\<close>

lemma played_roundtrip_unat:
  assumes sr: "o_samplerate h \<noteq> 0" and ch: "o_channels h \<noteq> 0"
    and no: "unat K * unat (o_samplerate h) * unat (o_channels h) < 2 ^ 64"
  shows "\<exists>R. get_status_played h (output_alsa_restore_stream h s K) = Some R \<and>
           unat R = unat K * unat (o_samplerate h) * unat (o_channels h) div 1000 * 1000
                      div (unat (o_samplerate h) * unat (o_channels h))"
proof -
  let ?sr = "o_samplerate h" and ?ch = "ucast (o_channels h) :: ulong"
  have uch: "unat ?ch = unat (o_channels h)"
  proof -
    have "unat (o_channels h) < 2 ^ 8"
      using unsigned_less [of "o_channels h"] by simp
    then have "unat (o_channels h) < 2 ^ 64" by simp
    then show ?thesis
      by (simp add: unsigned_ucast_eq take_bit_nat_eq_self)
  qed
  have "0 < unat (o_channels h)"
    using ch by (simp add: unat_gt_0)
  then have "unat K * unat ?sr * 1 \<le> unat K * unat ?sr * unat (o_channels h)"
    by (intro mult_le_mono2) simp
  then have "unat K * unat ?sr \<le> unat K * unat ?sr * unat (o_channels h)"
    by (simp only: mult_1_right)
  then have "unat K * unat ?sr < 2 ^ 64" using no by (rule le_less_trans)
  then have m1: "unat (K * ?sr) = unat K * unat ?sr"
    by (simp add: unat_mult_lem [THEN iffD1])
  have m2: "unat (K * ?sr * ?ch) = unat K * unat ?sr * unat (o_channels h)"
    using no m1 uch unat_mult_lem [of "K * ?sr" ?ch] by simp
  let ?p = "K * ?sr * ?ch div 1000"
  have p: "unat ?p = unat K * unat ?sr * unat (o_channels h) div 1000"
    by (simp add: unat_div m2)
  have "unat ?p * 1000 \<le> unat K * unat ?sr * unat (o_channels h)"
    unfolding p by simp
  then have "unat ?p * unat (1000 :: ulong) < 2 ^ 64" using no by simp
  then have m3: "unat (?p * 1000) = unat ?p * 1000"
    using unat_mult_lem [of ?p "1000 :: ulong"] by simp
  have "unat (?p * 1000 div ?sr div ?ch) = unat ?p * 1000 div unat ?sr div unat (o_channels h)"
    by (simp add: unat_div m3 uch)
  also have "\<dots> = unat ?p * 1000 div (unat ?sr * unat (o_channels h))"
    by (simp add: div_mult2_eq)
  finally have "unat (?p * 1000 div ?sr div ?ch) =
      unat K * unat ?sr * unat (o_channels h) div 1000 * 1000 div (unat ?sr * unat (o_channels h))"
    by (simp only: p)
  then show ?thesis
    using sr ch by (simp add: get_status_played_def output_alsa_restore_stream_def)
qed

text \<open>
  C3, as the code has it. After \<^verbatim>\<open>restore_stream(K)\<close> on an output with nonzero
  samplerate and channel count, and as long as \<open>K * samplerate * channels\<close> fits in 64
  bits, the played status is a value \<open>R\<close> of at most \<open>K\<close>. It is \<open>K\<close> exactly when
  \<open>K * samplerate * channels\<close> is a multiple of 1000, and when
  \<open>samplerate * channels\<close> is at least 1000 it is at least \<open>K - 1\<close>.
\<close>

theorem restore_then_played:
  assumes sr: "o_samplerate h \<noteq> 0" and ch: "o_channels h \<noteq> 0"
    and no: "unat K * unat (o_samplerate h) * unat (o_channels h) < 2 ^ 64"
  shows "\<exists>R. get_status_played h (output_alsa_restore_stream h s K) = Some R
           \<and> R \<le> K
           \<and> (R = K \<longleftrightarrow> 1000 dvd unat K * unat (o_samplerate h) * unat (o_channels h))
           \<and> (1000 \<le> unat (o_samplerate h) * unat (o_channels h) \<longrightarrow> unat K \<le> unat R + 1)"
proof -
  let ?s = "unat (o_samplerate h) * unat (o_channels h)"
  have pos: "0 < ?s" using sr ch by (simp add: unat_gt_0)
  obtain R where R: "get_status_played h (output_alsa_restore_stream h s K) = Some R"
    and u: "unat R = unat K * ?s div 1000 * 1000 div ?s"
    using played_roundtrip_unat [OF sr ch no, of s] by (auto simp: mult.assoc)
  have "unat R \<le> unat K"
    unfolding u using pos by (rule played_roundtrip_nat(1))
  then have 1: "R \<le> K" by (simp add: word_le_nat_alt)
  have "(unat R = unat K) = (1000 dvd unat K * ?s)"
    unfolding u using pos by (rule played_roundtrip_nat(2))
  then have 2: "R = K \<longleftrightarrow> 1000 dvd unat K * unat (o_samplerate h) * unat (o_channels h)"
    by (simp add: word_unat_eq_iff mult.assoc)
  have 3: "unat K \<le> unat R + 1" if "1000 \<le> ?s"
    unfolding u using pos that by (rule played_roundtrip_nat(3))
  from R 1 2 3 show ?thesis by blast
qed

theorem restore_then_played_witness:
  "\<exists>R. get_status_played \<lparr>o_samplerate = 44100, o_channels = 2, o_volume = 65535, o_stop = False,
            o_streams = []\<rparr>
          (output_alsa_restore_stream \<lparr>o_samplerate = 44100, o_channels = 2, o_volume = 65535,
             o_stop = False, o_streams = []\<rparr>
            \<lparr>s_res = Some 1, s_samplerate = 44100, s_channels = 2, s_is_playing = False,
             s_end_of_stream = False, s_played = 0, s_abort = False, s_volume = 65535,
             s_cache = Some 2, s_delay = 0, s_event_cb = None, s_event_ud = 0,
             s_buffering = False\<rparr> 7) = Some R
     \<and> R \<le> 7 \<and> R \<noteq> 7 \<and> unat (7 :: ulong) \<le> unat R + 1"
proof -
  let ?h = "\<lparr>o_samplerate = 44100, o_channels = 2, o_volume = 65535,
      o_stop = False, o_streams = []\<rparr>"
  have sr: "o_samplerate ?h \<noteq> 0" and ch: "o_channels ?h \<noteq> 0" by simp_all
  have no: "unat (7 :: ulong) * unat (o_samplerate ?h) * unat (o_channels ?h) < 2 ^ 64" by simp
  show ?thesis
    using restore_then_played [OF sr ch no, of
      "\<lparr>s_res = Some 1, s_samplerate = 44100, s_channels = 2, s_is_playing = False,
        s_end_of_stream = False, s_played = 0, s_abort = False, s_volume = 65535,
        s_cache = Some 2, s_delay = 0, s_event_cb = None, s_event_ud = 0,
        s_buffering = False\<rparr>"]
    by simp
qed

text \<open>
  C3 as stated fails: at 44100 Hz with 2 channels, one millisecond is restored as
  \<open>1 * 44100 * 2 / 1000 = 88\<close> samples, which are reported as
  \<open>88 * 1000 / 44100 / 2 = 0\<close> milliseconds.
\<close>

theorem restore_one_ms_reports_zero:
  "get_status_played \<lparr>o_samplerate = 44100, o_channels = 2, o_volume = 65535, o_stop = False,
       o_streams = []\<rparr>
     (output_alsa_restore_stream \<lparr>o_samplerate = 44100, o_channels = 2, o_volume = 65535,
        o_stop = False, o_streams = []\<rparr>
       \<lparr>s_res = Some 1, s_samplerate = 44100, s_channels = 2, s_is_playing = False,
        s_end_of_stream = False, s_played = 0, s_abort = False, s_volume = 65535,
        s_cache = Some 2, s_delay = 0, s_event_cb = None, s_event_ud = 0,
        s_buffering = False\<rparr> 1) \<noteq> Some 1"
  by (simp add: get_status_played_def output_alsa_restore_stream_def)

section \<open>The count returned by the mixing loop\<close>

text \<open>
  C2. The count returned by \<^verbatim>\<open>output_alsa_mix_streams\<close> should be the largest
  contribution. With two playing streams of which the first delivers 2 samples and the
  second 1, the function returns 1: the count of the stream that contributed last.
\<close>

theorem mix_streams_returns_last_size:
  "fst (output_alsa_mix_streams 65535
      (\<lambda>i. if i = 0 then \<lparr>r_ret = 2, r_data = [10, 20]\<rparr> else \<lparr>r_ret = 1, r_data = [30, 20]\<rparr>)
      \<lparr>o_samplerate = 44100, o_channels = 2, o_volume = 65535, o_stop = False,
       o_streams =
         [\<lparr>s_res = Some 1, s_samplerate = 44100, s_channels = 2, s_is_playing = True,
           s_end_of_stream = False, s_played = 0, s_abort = False, s_volume = 65535,
           s_cache = Some 2, s_delay = 0, s_event_cb = None, s_event_ud = 0,
           s_buffering = False\<rparr>,
          \<lparr>s_res = Some 3, s_samplerate = 44100, s_channels = 2, s_is_playing = True,
           s_end_of_stream = False, s_played = 0, s_abort = False, s_volume = 65535,
           s_cache = Some 4, s_delay = 0, s_event_cb = None, s_event_ud = 0,
           s_buffering = False\<rparr>]\<rparr>
      [0, 0]) = 1"
  by (simp add: output_alsa_mix_streams_def mix_stream_def mix_init_def mix_add_def)

section \<open>Writing after an abort\<close>

lemma stream_after_keeps_abort:
  "s_abort (stream_after vmax h s c) = s_abort s"
  by (cases c)
    (simp_all add: output_alsa_play_stream_def output_alsa_pause_stream_def
      output_alsa_flush_stream_def output_alsa_set_volume_stream_def
      output_alsa_set_cache_stream_def output_alsa_set_stream_event_cb_def
      output_alsa_restore_stream_def mix_stream_def Let_def)

lemma calls_keep_abort:
  "s_abort (foldl (stream_after vmax h) s calls) = s_abort s"
  by (induction calls arbitrary: s) (simp_all add: stream_after_keeps_abort)

text \<open>
  C10. Once \<^verbatim>\<open>abort_stream\<close> has returned, the stream has \<^verbatim>\<open>abort\<close> set; after any
  further calls on the stream, \<^verbatim>\<open>write_stream\<close> returns 0 and leaves the state of
  resampler and cache as it is, whatever \<^verbatim>\<open>resample_write\<close> would do and whatever
  state those modules are in by then.
\<close>

theorem write_after_abort:
  assumes "output_alsa_abort_stream lock cdelay rdelay h s w = Some (played, s', w')"
  shows "s_abort s' \<and>
         output_alsa_write_stream rw (foldl (stream_after vmax h) s' calls) buffer sz fmt w''
           = (0, w'')"
proof -
  have "s_abort s'"
    using assms
    by (auto simp: output_alsa_abort_stream_def Let_def split: option.splits if_splits)
  then show ?thesis
    by (simp add: output_alsa_write_stream_def calls_keep_abort)
qed

theorem write_after_abort_witness:
  "output_alsa_write_stream (\<lambda>r b n f w. (int (length b), w + 10))
     (foldl (stream_after 65535
          \<lparr>o_samplerate = 48000, o_channels = 2, o_volume = 65535, o_stop = False,
           o_streams = []\<rparr>)
        \<lparr>s_res = Some 1, s_samplerate = 44100, s_channels = 2, s_is_playing = False,
         s_end_of_stream = False, s_played = 96000, s_abort = True, s_volume = 65535,
         s_cache = Some 2, s_delay = 0, s_event_cb = None, s_event_ud = 0,
         s_buffering = False\<rparr>
        [Play, Restore 5, Pause])
     [1, 2, 3] 3 () (5 :: nat) = (0, 5)"
proof -
  let ?h = "\<lparr>o_samplerate = 48000, o_channels = 2, o_volume = 65535, o_stop = False,
           o_streams = []\<rparr>"
  have a: "output_alsa_abort_stream (\<lambda>c w. Some (Suc w)) 3 4 ?h
      \<lparr>s_res = Some 1, s_samplerate = 44100, s_channels = 2, s_is_playing = True,
       s_end_of_stream = False, s_played = 96000, s_abort = False, s_volume = 65535,
       s_cache = Some 2, s_delay = 0, s_event_cb = None, s_event_ud = 0,
       s_buffering = False\<rparr> (0 :: nat)
     = Some (1007,
         \<lparr>s_res = Some 1, s_samplerate = 44100, s_channels = 2, s_is_playing = False,
          s_end_of_stream = False, s_played = 96000, s_abort = True, s_volume = 65535,
          s_cache = Some 2, s_delay = 0, s_event_cb = None, s_event_ud = 0,
          s_buffering = False\<rparr>, 1)"
    by (simp add: output_alsa_abort_stream_def)
  show ?thesis
    using write_after_abort [OF a, of "\<lambda>r b n f w. (int (length b), w + 10)" 65535
        "[Play, Restore 5, Pause]" "[1, 2, 3]" 3 "()" 5]
    by simp
qed

section \<open>Buffering events\<close>

lemma events_of_append: "events_of (xs @ ys) = events_of xs @ events_of ys"
  by (induction xs rule: events_of.induct) simp_all

lemma events_of_notify:
  "events_of (notify s e) = (case s_event_cb s of None \<Rightarrow> [] | Some cb \<Rightarrow> [e])"
  by (simp add: notify_def split: option.splits)

lemma stream_run_Cons:
  assumes "mix_stream vmax s rd m = (s', m', es)"
  shows "snd (stream_run vmax s ((rd, m) # steps)) = es @ snd (stream_run vmax s' steps)"
  using assms by (simp split: prod.splits)

text \<open>
  One iteration on a stream that is playing, has a cache, a delay and an event callback,
  when the read does not fail: the flag \<^verbatim>\<open>buffering\<close> afterwards tells whether the
  read returned 0, and an event is emitted exactly when the flag changes.
\<close>

lemma mix_stream_step:
  assumes "s_is_playing s" "\<not> s_end_of_stream s" "s_cache s \<noteq> None" "0 < s_delay s"
    and "s_event_cb s = Some cb" "0 \<le> r_ret rd"
    and "mix_stream vmax s rd m = (s', m', es)"
  shows "s_is_playing s' \<and> \<not> s_end_of_stream s' \<and> s_cache s' \<noteq> None \<and> s_delay s' = s_delay s
       \<and> s_event_cb s' = Some cb \<and> s_buffering s' = (r_ret rd = 0)
       \<and> events_of es =
           (if r_ret rd = 0 then (if s_buffering s then [] else [STREAM_EVENT_BUFFERING])
            else (if s_buffering s then [STREAM_EVENT_READY] else []))"
  using assms
  by (auto simp: mix_stream_def Let_def events_of_notify split: if_splits option.splits)

lemma run_counts:
  assumes "s_is_playing s" "\<not> s_end_of_stream s" "s_cache s \<noteq> None" "0 < s_delay s"
    and "s_event_cb s = Some cb" "\<forall>st \<in> set steps. 0 \<le> r_ret (fst st)"
  shows "count_list (events_of (snd (stream_run vmax s steps))) STREAM_EVENT_BUFFERING
           = underflow_edges (s_buffering s) (map (\<lambda>st. r_ret (fst st)) steps)
       \<and> count_list (events_of (snd (stream_run vmax s steps))) STREAM_EVENT_READY
           = refill_edges (s_buffering s) (map (\<lambda>st. r_ret (fst st)) steps)"
  using assms
proof (induction steps arbitrary: s)
  case Nil
  then show ?case by simp
next
  case (Cons st steps)
  obtain rd m where st: "st = (rd, m)" by (cases st)
  obtain s' m' es where step: "mix_stream vmax s rd m = (s', m', es)"
    by (cases "mix_stream vmax s rd m")
  have nn: "0 \<le> r_ret rd" using Cons.prems(6) st by simp
  note fx = mix_stream_step [OF Cons.prems(1-5) nn step]
  have ih: "count_list (events_of (snd (stream_run vmax s' steps))) STREAM_EVENT_BUFFERING
           = underflow_edges (s_buffering s') (map (\<lambda>st. r_ret (fst st)) steps)
       \<and> count_list (events_of (snd (stream_run vmax s' steps))) STREAM_EVENT_READY
           = refill_edges (s_buffering s') (map (\<lambda>st. r_ret (fst st)) steps)"
    using fx Cons.prems(4,6) by (intro Cons.IH) simp_all
  have ev: "snd (stream_run vmax s ((rd, m) # steps)) = es @ snd (stream_run vmax s' steps)"
    using step by (rule stream_run_Cons)
  show ?case
    using ih fx by (simp add: ev st events_of_append del: stream_run.simps)
qed

lemma run_alternates:
  "distinct_adj (events_of (snd (stream_run vmax s steps)))
   \<and> next_event_ok s (events_of (snd (stream_run vmax s steps)))
   \<and> (s_end_of_stream s \<or> s_event_cb s = None \<longrightarrow> events_of (snd (stream_run vmax s steps)) = [])"
proof (induction steps arbitrary: s)
  case Nil
  then show ?case by (simp add: next_event_ok_def)
next
  case (Cons st steps)
  obtain rd m where st: "st = (rd, m)" by (cases st)
  obtain s' m' es where step: "mix_stream vmax s rd m = (s', m', es)"
    by (cases "mix_stream vmax s rd m")
  let ?rest = "events_of (snd (stream_run vmax s' steps))"
  have ih: "distinct_adj ?rest" "next_event_ok s' ?rest"
    "s_end_of_stream s' \<or> s_event_cb s' = None \<longrightarrow> ?rest = []"
    using Cons.IH [of s'] by simp_all
  have "snd (stream_run vmax s ((rd, m) # steps)) = es @ snd (stream_run vmax s' steps)"
    using step by (rule stream_run_Cons)
  then have ev: "events_of (snd (stream_run vmax s (st # steps))) = events_of es @ ?rest"
    by (simp add: st events_of_append del: stream_run.simps)
  have cb: "s_event_cb s' = s_event_cb s"
    using step by (auto simp: mix_stream_def Let_def split: if_splits option.splits)
  consider (skip) "s' = s" "es = []"
    | (eos) "s_end_of_stream s'" "\<not> s_end_of_stream s"
        "events_of es = (if s_event_cb s = None then [] else [STREAM_EVENT_END])"
    | (buf) "s_buffering s'" "\<not> s_buffering s" "\<not> s_end_of_stream s"
        "events_of es = (if s_event_cb s = None then [] else [STREAM_EVENT_BUFFERING])"
    | (rdy) "\<not> s_buffering s'" "s_buffering s" "\<not> s_end_of_stream s"
        "events_of es = (if s_event_cb s = None then [] else [STREAM_EVENT_READY])"
    | (same) "s_buffering s' = s_buffering s" "events_of es = []"
        "s_end_of_stream s' = s_end_of_stream s"
    using step
    by (auto simp: mix_stream_def Let_def events_of_notify split: if_splits option.splits)
  then show ?case
  proof cases
    case skip
    then show ?thesis using ih ev by simp
  next
    case eos
    then show ?thesis using ih ev cb by (auto simp: next_event_ok_def)
  next
    case buf
    then show ?thesis using ih ev cb
      by (cases ?rest) (auto simp: next_event_ok_def distinct_adj_Cons split: list.splits)
  next
    case rdy
    then show ?thesis using ih ev cb
      by (cases ?rest) (auto simp: next_event_ok_def distinct_adj_Cons split: list.splits)
  next
    case same
    then show ?thesis using ih ev cb by (auto simp: next_event_ok_def split: list.splits)
  qed
qed

text \<open>
  C8. For a playing stream with a cache, a positive delay and an event callback, along
  any sequence of runs of the mixer whose reads do not fail: the number of BUFFERING
  events is the number of underflow edges of the read results, the number of READY
  events is the number of refill edges, and no event is followed directly by the same
  event, so that between two BUFFERING events there is a READY event.
\<close>

theorem buffering_edges:
  assumes "s_is_playing s" "\<not> s_end_of_stream s" "s_cache s \<noteq> None" "0 < s_delay s"
    and "s_event_cb s = Some cb" "\<forall>st \<in> set steps. 0 \<le> r_ret (fst st)"
  shows "count_list (events_of (snd (stream_run vmax s steps))) STREAM_EVENT_BUFFERING
           = underflow_edges (s_buffering s) (map (\<lambda>st. r_ret (fst st)) steps)
       \<and> count_list (events_of (snd (stream_run vmax s steps))) STREAM_EVENT_READY
           = refill_edges (s_buffering s) (map (\<lambda>st. r_ret (fst st)) steps)
       \<and> distinct_adj (events_of (snd (stream_run vmax s steps)))"
  using run_counts [OF assms] run_alternates [of vmax s steps] by simp

theorem buffering_edges_witness:
  "events_of (snd (stream_run 65535
      \<lparr>s_res = Some 1, s_samplerate = 44100, s_channels = 2, s_is_playing = True,
       s_end_of_stream = False, s_played = 0, s_abort = False, s_volume = 65535,
       s_cache = Some 2, s_delay = 500, s_event_cb = Some 3, s_event_ud = 4,
       s_buffering = False\<rparr>
      [(\<lparr>r_ret = 0, r_data = [0]\<rparr>, \<lparr>m_out_buffer = [0], m_out_size = 0, m_first = True\<rparr>),
       (\<lparr>r_ret = 0, r_data = [0]\<rparr>, \<lparr>m_out_buffer = [0], m_out_size = 0, m_first = True\<rparr>),
       (\<lparr>r_ret = 1, r_data = [5]\<rparr>, \<lparr>m_out_buffer = [0], m_out_size = 0, m_first = True\<rparr>),
       (\<lparr>r_ret = 0, r_data = [5]\<rparr>, \<lparr>m_out_buffer = [0], m_out_size = 1, m_first = False\<rparr>),
       (\<lparr>r_ret = 1, r_data = [6]\<rparr>, \<lparr>m_out_buffer = [7], m_out_size = 1, m_first = False\<rparr>)]))
     = [STREAM_EVENT_BUFFERING, STREAM_EVENT_READY, STREAM_EVENT_BUFFERING, STREAM_EVENT_READY]
   \<and> underflow_edges False [0, 0, 1, 0, 1] = 2 \<and> refill_edges False [0, 0, 1, 0, 1] = 2"
proof -
  let ?s = "\<lparr>s_res = Some 1, s_samplerate = 44100, s_channels = 2, s_is_playing = True,
       s_end_of_stream = False, s_played = 0, s_abort = False, s_volume = 65535,
       s_cache = Some 2, s_delay = 500, s_event_cb = Some 3, s_event_ud = 4,
       s_buffering = False\<rparr>"
  let ?steps = "[(\<lparr>r_ret = 0, r_data = [0]\<rparr>, \<lparr>m_out_buffer = [0], m_out_size = 0, m_first = True\<rparr>),
       (\<lparr>r_ret = 0, r_data = [0]\<rparr>, \<lparr>m_out_buffer = [0], m_out_size = 0, m_first = True\<rparr>),
       (\<lparr>r_ret = 1, r_data = [5]\<rparr>, \<lparr>m_out_buffer = [0], m_out_size = 0, m_first = True\<rparr>),
       (\<lparr>r_ret = 0, r_data = [5]\<rparr>, \<lparr>m_out_buffer = [0], m_out_size = 1, m_first = False\<rparr>),
       (\<lparr>r_ret = 1, r_data = [6]\<rparr>, \<lparr>m_out_buffer = [7], m_out_size = 1, m_first = False\<rparr>)]"
  have p: "s_is_playing ?s" and e: "\<not> s_end_of_stream ?s" and c: "s_cache ?s \<noteq> None"
    and d: "0 < s_delay ?s" and cb: "s_event_cb ?s = Some 3"
    by simp_all
  have nn: "\<forall>st \<in> set ?steps. 0 \<le> r_ret (fst st)" by simp
  show ?thesis
    using buffering_edges [OF p e c d cb nn, of 65535]
    by (simp add: mix_stream_def notify_def mix_init_def mix_add_def)
qed

section \<open>Reading from the cache\<close>

text \<open>A count below \<open>2^31\<close> is returned as it is.\<close>

lemma to_int_small:
  assumes "n < 2 ^ 31"
  shows "to_int n = uint n"
proof -
  have "uint n < 2 ^ 31" using assms by (simp add: word_less_def)
  moreover have "- (2 ^ 31) \<le> uint n"
  proof -
    have "(- (2 ^ 31) :: int) \<le> 0" by simp
    also have "0 \<le> uint n" by simp
    finally show ?thesis .
  qed
  ultimately have "signed_take_bit 31 (uint n) = uint n"
    by (simp add: signed_take_bit_int_eq_self)
  moreover have "to_int n = sint (word_of_int (uint n) :: 32 word)"
    by (simp only: to_int_def ucast_eq)
  moreover have "sint (word_of_int (uint n) :: 32 word) = signed_take_bit 31 (uint n)"
    by (simp only: sint_sbintrunc') simp
  ultimately show ?thesis by simp
qed

lemma unat_ulong_less: "unat (w :: ulong) < 2 ^ 64"
proof -
  have "unat w < 2 ^ LENGTH(64)" by (rule unsigned_less)
  then show ?thesis by simp
qed

lemma unat_add_ulong:
  fixes a b :: ulong
  assumes "unat a + unat b < 2 ^ 64"
  shows "unat (a + b) = unat a + unat b"
  using assms by (simp add: unat_add_lem [THEN iffD1])

lemma cache_read_locked_le:
  "fst (cache_read_locked h b buffer sz fmt) \<le> sz"
  by (auto simp: cache_read_locked_def cache_get_format_def Let_def word_le_nat_alt word_less_nat_alt
      split: list.splits)

lemma cache_read_locked_mode:
  assumes "cache_read_locked h b buffer sz fmt = (n, buffer', fmt', h')"
  shows "c_use_thread h' = c_use_thread h"
  using assms
  by (auto simp: cache_read_locked_def cache_get_format_def Let_def split: if_splits list.splits prod.splits)

text \<open>
  C6. In threaded mode, a read from a cache that is not ready returns 0 and leaves the
  caller's buffer and format and the whole cache, so also \<^verbatim>\<open>len\<close>, the format list and
  \<^verbatim>\<open>fmt_len\<close>, as they were.
\<close>

theorem cache_read_not_ready:
  assumes "c_use_thread h" "\<not> c_is_ready h" "c_buffer h \<noteq> None"
  shows "cache_read (Some h) buffer sz fmt cb alloc_ok = (0, buffer, fmt, Some h)"
  using assms
  by (auto simp: cache_read_def cache_read_locked_def cache_get_format_def cache_read_refill_def to_int_def)

theorem cache_read_not_ready_witness:
  "cache_read
     (Some \<lparr>c_use_thread = True, c_buffer = Some [1, 2, 0, 0], c_size = 4, c_len = 2, c_pos = 0,
            c_is_ready = False,
            c_fmt_list = [\<lparr>cf_fmt = \<lparr>samplerate = 44100, channels = 2\<rparr>, cf_len = 0\<rparr>],
            c_fmt_len = 2, c_input_lock = False, c_flush = False, c_stop = False\<rparr>)
     [7, 7] 2 A_FORMAT_INIT \<lparr>cb_ret = 1, cb_data = [9], cb_fmt = A_FORMAT_INIT\<rparr> True
   = (0, [7, 7], A_FORMAT_INIT,
      Some \<lparr>c_use_thread = True, c_buffer = Some [1, 2, 0, 0], c_size = 4, c_len = 2, c_pos = 0,
            c_is_ready = False,
            c_fmt_list = [\<lparr>cf_fmt = \<lparr>samplerate = 44100, channels = 2\<rparr>, cf_len = 0\<rparr>],
            c_fmt_len = 2, c_input_lock = False, c_flush = False, c_stop = False\<rparr>)"
proof -
  let ?h = "\<lparr>c_use_thread = True, c_buffer = Some [1, 2, 0, 0], c_size = 4, c_len = 2, c_pos = 0,
            c_is_ready = False,
            c_fmt_list = [\<lparr>cf_fmt = \<lparr>samplerate = 44100, channels = 2\<rparr>, cf_len = 0\<rparr>],
            c_fmt_len = 2, c_input_lock = False, c_flush = False, c_stop = False\<rparr>"
  have t: "c_use_thread ?h" and r: "\<not> c_is_ready ?h" and b: "c_buffer ?h \<noteq> None"
    by simp_all
  show ?thesis
    using cache_read_not_ready [OF t r b, of "[7, 7]" 2 A_FORMAT_INIT
        "\<lparr>cb_ret = 1, cb_data = [9], cb_fmt = A_FORMAT_INIT\<rparr>" True]
    by simp
qed

text \<open>
  C7. Without a producer thread, when the refill is attempted (there is room and the
  input lock is free) and the input callback returns a negative value, \<^verbatim>\<open>cache_read\<close>
  returns \<open>-1\<close> if the cache is empty after the read, and otherwise the count \<open>n\<close> that
  this call copied; so it returns \<open>-1\<close> iff the cache is empty. The requested count is
  below \<open>2^31\<close>, so that it fits the \<^verbatim>\<open>int\<close> that is returned.
\<close>

theorem cache_read_callback_error:
  assumes "\<not> c_use_thread h" "c_buffer h = Some b"
    and "cache_read_locked h b buffer sz fmt = (n, buffer', fmt', h')"
    and "c_len h' < c_size h'" "\<not> c_input_lock h'"
    and "cb_ret cb < 0" "sz < 2 ^ 31"
  shows "fst (cache_read (Some h) buffer sz fmt cb alloc_ok) = (if c_len h' = 0 then - 1 else uint n)
       \<and> (fst (cache_read (Some h) buffer sz fmt cb alloc_ok) = - 1 \<longleftrightarrow> c_len h' = 0)"
proof -
  have "n \<le> sz" using cache_read_locked_le [of h b buffer sz fmt] assms(3) by simp
  then have "n < 2 ^ 31" using assms(7) by (rule le_less_trans)
  then have n: "to_int n = uint n" by (rule to_int_small)
  have ut: "\<not> c_use_thread h'"
    using assms(1) cache_read_locked_mode [OF assms(3)] by simp
  have "fst (cache_read (Some h) buffer sz fmt cb alloc_ok) = (if c_len h' = 0 then - 1 else uint n)"
    using assms ut n by (simp add: cache_read_def cache_read_refill_def Let_def)
  moreover have "uint n \<noteq> - 1"
  proof
    assume "uint n = - 1"
    moreover have "0 \<le> uint n" by simp
    ultimately show False by linarith
  qed
  ultimately show ?thesis by simp
qed

theorem cache_read_callback_error_witness:
  "fst (cache_read
     (Some \<lparr>c_use_thread = False, c_buffer = Some [1, 2], c_size = 2, c_len = 2, c_pos = 0,
            c_is_ready = True,
            c_fmt_list = [\<lparr>cf_fmt = \<lparr>samplerate = 44100, channels = 2\<rparr>, cf_len = 0\<rparr>],
            c_fmt_len = 2, c_input_lock = False, c_flush = False, c_stop = False\<rparr>)
     [7, 7] 1 A_FORMAT_INIT \<lparr>cb_ret = - 1, cb_data = [], cb_fmt = A_FORMAT_INIT\<rparr> True) = 1
   \<and> fst (cache_read
     (Some \<lparr>c_use_thread = False, c_buffer = Some [1, 2], c_size = 2, c_len = 2, c_pos = 0,
            c_is_ready = True,
            c_fmt_list = [\<lparr>cf_fmt = \<lparr>samplerate = 44100, channels = 2\<rparr>, cf_len = 0\<rparr>],
            c_fmt_len = 2, c_input_lock = False, c_flush = False, c_stop = False\<rparr>)
     [7, 7] 1 A_FORMAT_INIT \<lparr>cb_ret = - 1, cb_data = [], cb_fmt = A_FORMAT_INIT\<rparr> True) \<noteq> - 1"
proof -
  let ?h = "\<lparr>c_use_thread = False, c_buffer = Some [1, 2], c_size = 2, c_len = 2, c_pos = 0,
            c_is_ready = True,
            c_fmt_list = [\<lparr>cf_fmt = \<lparr>samplerate = 44100, channels = 2\<rparr>, cf_len = 0\<rparr>],
            c_fmt_len = 2, c_input_lock = False, c_flush = False, c_stop = False\<rparr>"
  let ?h' = "\<lparr>c_use_thread = False, c_buffer = Some [2, 2], c_size = 2, c_len = 1, c_pos = 0,
            c_is_ready = True,
            c_fmt_list = [\<lparr>cf_fmt = \<lparr>samplerate = 44100, channels = 2\<rparr>, cf_len = 0\<rparr>],
            c_fmt_len = 1, c_input_lock = False, c_flush = False, c_stop = False\<rparr>"
  have l: "cache_read_locked ?h [1, 2] [7, 7] 1 A_FORMAT_INIT
             = (1, [1, 7], \<lparr>samplerate = 44100, channels = 2\<rparr>, ?h')"
    by (simp add: cache_read_locked_def cache_get_format_def format_cpy_def memcpy_at_def)
  let ?cb = "\<lparr>cb_ret = - 1, cb_data = [], cb_fmt = A_FORMAT_INIT\<rparr>"
  have t: "\<not> c_use_thread ?h" and b: "c_buffer ?h = Some [1, 2]" by simp_all
  have room: "c_len ?h' < c_size ?h'" and free: "\<not> c_input_lock ?h'" by simp_all
  have neg: "cb_ret ?cb < 0" and small: "(1 :: ulong) < 2 ^ 31" by simp_all
  show ?thesis
    using cache_read_callback_error [OF t b l room free neg small, of True]
    by simp
qed

text \<open>
  C9. The input lock should be free again when \<^verbatim>\<open>cache_read\<close> returns. A cache
  without producer thread is opened with room for 4 samples and read while its input
  lock is free; the input callback returns \<open>-1\<close>. \<^verbatim>\<open>cache_read\<close> returns \<open>-1\<close> and the
  input lock is still held.
\<close>

theorem refill_error_keeps_input_lock:
  "cache_open 4 False True True False
     = Some \<lparr>c_use_thread = False, c_buffer = Some [0, 0, 0, 0], c_size = 4, c_len = 0, c_pos = 0,
             c_is_ready = False, c_fmt_list = [], c_fmt_len = 0, c_input_lock = False,
             c_flush = False, c_stop = False\<rparr>
   \<and> cache_read (cache_open 4 False True True False) [7, 7, 7, 7] 4 A_FORMAT_INIT
       \<lparr>cb_ret = - 1, cb_data = [], cb_fmt = A_FORMAT_INIT\<rparr> True
     = (- 1, [7, 7, 7, 7], A_FORMAT_INIT,
        Some \<lparr>c_use_thread = False, c_buffer = Some [0, 0, 0, 0], c_size = 4, c_len = 0,
              c_pos = 0, c_is_ready = False, c_fmt_list = [], c_fmt_len = 0,
              c_input_lock = True, c_flush = False, c_stop = False\<rparr>)"
proof -
  have "replicate 4 x = [x, x, x, x]" for x :: sample
    by (simp add: numeral_eq_Suc)
  then show ?thesis
    by (simp add: cache_open_def cache_read_def cache_read_locked_def cache_get_format_def cache_read_refill_def
        memcpy_at_def)
qed

text \<open>On the path where the callback succeeds, the refill releases the input lock.\<close>

lemma refill_success_releases_input_lock:
  assumes "0 \<le> cb_ret cb" "\<not> c_input_lock h"
  shows "\<not> c_input_lock (snd (cache_read_refill h sz cb alloc_ok))"
  using assms
  by (simp add: cache_read_refill_def Let_def cache_unlock_def)

section \<open>Format boundaries\<close>

subsection \<open>The bookkeeping of the segments\<close>

text \<open>
  Opening and flushing establish the bookkeeping of the segments, and the step of the
  producer thread, the read and its refill keep it, provided that the callback returns
  no more than it was asked for and that the allocation of the first segment succeeds.
\<close>

lemma segments_ok_fields:
  assumes "c_fmt_list h' = c_fmt_list h" "c_len h' = c_len h" "c_size h' = c_size h"
    "c_fmt_len h' = c_fmt_len h"
  shows "segments_ok h' = segments_ok h"
  using assms by (auto simp: segments_ok_def split: list.splits)

lemma cache_open_ok:
  assumes "cache_open sz ut has_cb res_ok fl = Some h"
  shows "segments_ok h"
  using assms by (auto simp: cache_open_def segments_ok_def split: if_splits)

lemma cache_flush_ok:
  assumes "cache_flush h = Some h'"
  shows "segments_ok h'"
  using assms by (auto simp: cache_flush_def cache_lock_def segments_ok_def split: if_splits)

lemma update_format_list_fields:
  "c_len (update_format_list h f k ok) = c_len h"
  "c_size (update_format_list h f k ok) = c_size h"
  "c_buffer (update_format_list h f k ok) = c_buffer h"
  "c_use_thread (update_format_list h f k ok) = c_use_thread h"
  "c_is_ready h \<Longrightarrow> c_is_ready (update_format_list h f k ok)"
  by (simp_all add: update_format_list_def cache_put_format_def Let_def)

lemma update_format_list_shape:
  "(c_fmt_list (update_format_list h f k ok) = c_fmt_list h @ [\<lparr>cf_fmt = f, cf_len = c_fmt_len h\<rparr>]
       \<and> c_fmt_len (update_format_list h f k ok) = k)
   \<or> ((c_fmt_list h \<noteq> [] \<or> \<not> ok) \<and> c_fmt_list (update_format_list h f k ok) = c_fmt_list h
       \<and> c_fmt_len (update_format_list h f k ok) = c_fmt_len h + k)"
  by (simp add: update_format_list_def cache_put_format_def Let_def format_cpy_def)

lemma producer_ok:
  assumes ok: "segments_ok h"
    and fits: "unat (c_len h) + unat k \<le> unat (c_size h)"
    and al: "alloc_ok \<or> c_fmt_list h \<noteq> []"
    and h': "h' = update_format_list (h\<lparr>c_buffer := bf, c_len := c_len h + k\<rparr>) in_fmt k alloc_ok"
  shows "segments_ok h'"
proof -
  let ?g = "h\<lparr>c_buffer := bf, c_len := c_len h + k\<rparr>"
  have lt: "unat (c_len h) + unat k < 2 ^ 64"
    using fits unat_ulong_less [of "c_size h"] by simp
  then have add: "unat (c_len h + k) = unat (c_len h) + unat k"
    by (rule unat_add_ulong)
  have le': "c_len h + k \<le> c_size h"
    using fits add by (simp add: word_le_nat_alt)
  have len': "c_len h' = c_len h + k" and size': "c_size h' = c_size h"
    unfolding h' by (simp_all add: update_format_list_fields)
  note shape = update_format_list_shape [of ?g in_fmt k alloc_ok]
  show ?thesis
  proof (cases "c_fmt_list h")
    case Nil
    then have l0: "c_len h = 0" using ok by (simp add: segments_ok_def)
    from shape Nil al have "c_fmt_list h' = [\<lparr>cf_fmt = in_fmt, cf_len = c_fmt_len h\<rparr>] \<and> c_fmt_len h' = k"
      unfolding h' by auto
    then show ?thesis using l0 le' by (simp add: segments_ok_def len' size')
  next
    case (Cons cf rest)
    then have tot: "sum_list (map (\<lambda>c. unat (cf_len c)) rest) + unat (c_fmt_len h) = unat (c_len h)"
      using ok by (simp add: segments_ok_def)
    then have "unat (c_fmt_len h) + unat k < 2 ^ 64" using lt by simp
    then have fadd: "unat (c_fmt_len h + k) = unat (c_fmt_len h) + unat k"
      by (rule unat_add_ulong)
    from shape show ?thesis
    proof
      assume "c_fmt_list (update_format_list ?g in_fmt k alloc_ok)
                = c_fmt_list ?g @ [\<lparr>cf_fmt = in_fmt, cf_len = c_fmt_len ?g\<rparr>]
              \<and> c_fmt_len (update_format_list ?g in_fmt k alloc_ok) = k"
      then have "c_fmt_list h' = cf # rest @ [\<lparr>cf_fmt = in_fmt, cf_len = c_fmt_len h\<rparr>]"
        and "c_fmt_len h' = k"
        unfolding h' using Cons by simp_all
      then show ?thesis using tot add le' by (simp add: segments_ok_def len' size')
    next
      assume "(c_fmt_list ?g \<noteq> [] \<or> \<not> alloc_ok)
              \<and> c_fmt_list (update_format_list ?g in_fmt k alloc_ok) = c_fmt_list ?g
              \<and> c_fmt_len (update_format_list ?g in_fmt k alloc_ok) = c_fmt_len ?g + k"
      then have "c_fmt_list h' = cf # rest" and "c_fmt_len h' = c_fmt_len h + k"
        unfolding h' using Cons by simp_all
      then show ?thesis using tot add fadd le' by (simp add: segments_ok_def len' size')
    qed
  qed
qed


lemma thread_put_ok:
  assumes ok: "segments_ok h" and al: "alloc_ok \<or> c_fmt_list h \<noteq> []"
    and put: "cache_thread_put h t alloc_ok = (h', t', k)"
  shows "segments_ok h'"
proof -
  let ?k = "if c_size h - c_len h > t_len t then t_len t else c_size h - c_len h"
  have le: "c_len h \<le> c_size h" using ok by (simp add: segments_ok_def)
  then have sub: "unat (c_size h - c_len h) = unat (c_size h) - unat (c_len h)"
    by (simp add: unat_sub)
  have ule: "unat (c_len h) \<le> unat (c_size h)" using le by (simp add: word_le_nat_alt)
  have "unat ?k \<le> unat (c_size h - c_len h)"
    by (simp add: word_less_nat_alt)
  then have fits: "unat (c_len h) + unat ?k \<le> unat (c_size h)"
    using sub ule by linarith
  have "h' = update_format_list
               (h\<lparr>c_buffer := map_option (\<lambda>b. memcpy_at b (unat (c_len h)) (t_buffer t) (unat ?k))
                                 (c_buffer h),
                  c_len := c_len h + ?k\<rparr>) (t_in_fmt t) ?k alloc_ok"
    using put by (auto simp: cache_thread_put_def Let_def)
  with ok fits al show ?thesis by (rule producer_ok)
qed

lemma thread_iter_ok:
  assumes ok: "segments_ok h" and al: "alloc_ok \<or> c_fmt_list h \<noteq> []"
    and it: "cache_read_thread_iter h t cb alloc_ok = Some (go, h', t')"
  shows "segments_ok h'"
proof (cases "c_stop h")
  case True
  then show ?thesis using it ok by (simp add: cache_read_thread_iter_def)
next
  case False
  let ?h2 = "if c_flush h then h\<lparr>c_input_lock := True, c_flush := False\<rparr>
             else h\<lparr>c_input_lock := True\<rparr>"
  have "segments_ok ?h2 = segments_ok h" by (rule segments_ok_fields) simp_all
  then have ok2: "segments_ok ?h2" using ok by simp
  have al2: "alloc_ok \<or> c_fmt_list ?h2 \<noteq> []" using al by simp
  have "h' = ?h2 \<or> (\<exists>t4 h3 t5 k. cache_thread_put ?h2 t4 alloc_ok = (h3, t5, k)
                          \<and> h' = cache_unlock h3)"
    using it False
    by (auto simp: cache_read_thread_iter_def cache_lock_def Let_def
        split: if_splits prod.splits)
  then show ?thesis
  proof
    assume "h' = ?h2"
    then show ?thesis using ok2 by simp
  next
    assume "\<exists>t4 h3 t5 k. cache_thread_put ?h2 t4 alloc_ok = (h3, t5, k) \<and> h' = cache_unlock h3"
    then obtain t4 h3 t5 k where p: "cache_thread_put ?h2 t4 alloc_ok = (h3, t5, k)"
      and h': "h' = cache_unlock h3" by blast
    have "segments_ok h3" using ok2 al2 p by (rule thread_put_ok)
    moreover have "segments_ok (cache_unlock h3) = segments_ok h3"
      by (rule segments_ok_fields) (simp_all add: cache_unlock_def)
    ultimately show ?thesis using h' by simp
  qed
qed

lemma read_locked_ok:
  assumes ok: "segments_ok h"
    and rd: "cache_read_locked h b buffer sz fmt = (n, buffer', fmt', h')"
  shows "segments_ok h'"
proof (cases "c_is_ready h")
  case False
  then have "h' = h" using rd by (simp add: cache_read_locked_def)
  then show ?thesis using ok by simp
next
  case True
  have le: "c_len h \<le> c_size h" using ok by (simp add: segments_ok_def)
  let ?sz1 = "if sz > c_len h then c_len h else sz"
  have sz1: "?sz1 \<le> c_len h" by (simp add: word_le_nat_alt word_less_nat_alt)
  have sub1: "unat (c_len h - ?sz1) = unat (c_len h) - unat ?sz1"
    using sz1 by (simp only: unat_sub)
  have "c_len h - ?sz1 \<le> c_len h" using sub1 by (simp only: word_le_nat_alt)
  then have le1: "c_len h - ?sz1 \<le> c_size h" using le by (rule order_trans)
  have u1: "unat ?sz1 \<le> unat (c_len h)" using sz1 by (simp only: word_le_nat_alt)
  show ?thesis
  proof (cases "c_fmt_list h")
    case Nil
    then have l0: "c_len h = 0" using ok by (simp add: segments_ok_def)
    have s0: "?sz1 = 0" using sz1 l0 by simp
    have "c_len h' = c_len h - ?sz1 \<and> c_size h' = c_size h \<and> c_fmt_list h' = []"
      using rd True Nil by (auto simp: cache_read_locked_def Let_def)
    then have "c_len h' = 0 \<and> c_size h' = c_size h \<and> c_fmt_list h' = []"
      using s0 l0 by simp
    then show ?thesis by (simp add: segments_ok_def)
  next
    case (Cons cf rest)
    show ?thesis
    proof (cases rest)
      case Nil
      have "unat (c_fmt_len h) = unat (c_len h)"
        using ok Cons Nil by (simp add: segments_ok_def)
      then have fl: "c_fmt_len h = c_len h" by (simp add: word_unat_eq_iff)
      have h': "h' = h\<lparr>c_buffer := Some (memcpy_at b 0 (drop (unat ?sz1) b) (unat (c_len h - ?sz1))),
                       c_len := c_len h - ?sz1, c_fmt_list := [cf], c_fmt_len := c_fmt_len h - ?sz1,
                       c_is_ready := (if c_len h - ?sz1 = 0 then False else c_is_ready h)\<rparr>"
        using rd True Cons Nil by (auto simp: cache_read_locked_def Let_def)
      show ?thesis unfolding segments_ok_def h' using le1 fl by simp
    next
      case (Cons nf rest')
      note Cons2 = this
      let ?rest = "sum_list (map (\<lambda>c. unat (cf_len c)) rest')"
      have tot: "unat (cf_len nf) + ?rest + unat (c_fmt_len h) = unat (c_len h)"
        using ok \<open>c_fmt_list h = cf # rest\<close> Cons2 by (simp add: segments_ok_def)
      then have nfle: "cf_len nf \<le> c_len h" by (simp add: word_le_nat_alt)
      show ?thesis
      proof (cases "cf_len nf < ?sz1")
        case lt: True
        have h': "h' = h\<lparr>c_buffer := Some (memcpy_at b 0 (drop (unat (cf_len nf)) b)
                                            (unat (c_len h - cf_len nf))),
                       c_len := c_len h - cf_len nf, c_fmt_list := nf\<lparr>cf_len := 0\<rparr> # rest',
                       c_fmt_len := c_fmt_len h,
                       c_is_ready := (if c_len h - cf_len nf = 0 then False else c_is_ready h)\<rparr>"
          using rd True \<open>c_fmt_list h = cf # rest\<close> Cons2 lt
          by (auto simp: cache_read_locked_def cache_get_format_def Let_def)
        have sub: "unat (c_len h - cf_len nf) = unat (c_len h) - unat (cf_len nf)"
          using nfle by (simp add: unat_sub)
        then have "c_len h - cf_len nf \<le> c_len h" by (simp add: word_le_nat_alt)
        then have le': "c_len h - cf_len nf \<le> c_size h" using le by (rule order_trans)
        have sum': "?rest + unat (c_fmt_len h) = unat (c_len h - cf_len nf)"
          using tot sub by linarith
        show ?thesis unfolding segments_ok_def h' using le' sum' by simp
      next
        case ge: False
        then have s1le: "?sz1 \<le> cf_len nf" by simp
        have h': "h' = h\<lparr>c_buffer := Some (memcpy_at b 0 (drop (unat ?sz1) b) (unat (c_len h - ?sz1))),
                       c_len := c_len h - ?sz1,
                       c_fmt_list := cf # nf\<lparr>cf_len := cf_len nf - ?sz1\<rparr> # rest',
                       c_fmt_len := c_fmt_len h,
                       c_is_ready := (if c_len h - ?sz1 = 0 then False else c_is_ready h)\<rparr>"
          using rd True \<open>c_fmt_list h = cf # rest\<close> Cons2 ge
          by (auto simp: cache_read_locked_def cache_get_format_def Let_def)
        have sub2: "unat (cf_len nf - ?sz1) = unat (cf_len nf) - unat ?sz1"
          using s1le by (simp only: unat_sub)
        have u2: "unat ?sz1 \<le> unat (cf_len nf)" using s1le by (simp only: word_le_nat_alt)
        have sum': "unat (cf_len nf - ?sz1) + ?rest + unat (c_fmt_len h) = unat (c_len h - ?sz1)"
          using tot sub1 sub2 u2 by linarith
        show ?thesis unfolding segments_ok_def h' using le1 sum' by simp
      qed
    qed
  qed
qed

lemma refill_ok:
  assumes ok: "segments_ok h" and al: "alloc_ok \<or> c_fmt_list h \<noteq> []"
    and contract: "c_use_thread h \<or> cb_ret cb \<le> uint (c_size h - c_len h)"
    and rf: "cache_read_refill h n cb alloc_ok = (r, h')"
  shows "segments_ok h'"
proof (cases "\<not> c_use_thread h \<and> c_len h < c_size h \<and> \<not> c_input_lock h \<and> 0 \<le> cb_ret cb")
  case False
  then have "c_fmt_list h' = c_fmt_list h \<and> c_len h' = c_len h \<and> c_size h' = c_size h
      \<and> c_fmt_len h' = c_fmt_len h"
    using rf by (auto simp: cache_read_refill_def Let_def split: if_splits)
  then have "segments_ok h' = segments_ok h"
    by (intro segments_ok_fields) simp_all
  then show ?thesis using ok by simp
next
  case True
  let ?k = "word_of_int (cb_ret cb) :: ulong"
  let ?bf = "map_option (\<lambda>b. memcpy_at b (unat (c_len h)) (cb_data cb) (length (cb_data cb)))
               (c_buffer h)"
  have le: "c_len h \<le> c_size h" using ok by (simp add: segments_ok_def)
  then have sub: "unat (c_size h - c_len h) = unat (c_size h) - unat (c_len h)"
    by (simp add: unat_sub)
  have ule: "unat (c_len h) \<le> unat (c_size h)" using le by (simp add: word_le_nat_alt)
  have ct: "cb_ret cb \<le> uint (c_size h - c_len h)" using contract True by simp
  have "uint ?k = cb_ret cb"
  proof -
    have "cb_ret cb < 2 ^ 64"
      using ct uint_lt2p [of "c_size h - c_len h"] by simp
    then show ?thesis using True by (simp add: uint_word_of_int take_bit_int_eq_self)
  qed
  then have "uint ?k \<le> uint (c_size h - c_len h)" using ct by simp
  then have "unat ?k \<le> unat (c_size h - c_len h)"
    by (simp add: word_le_def [symmetric] word_le_nat_alt)
  then have fits: "unat (c_len h) + unat ?k \<le> unat (c_size h)"
    using sub ule by linarith
  let ?g = "h\<lparr>c_input_lock := True\<rparr>"
  let ?h1 = "update_format_list (?g\<lparr>c_buffer := ?bf, c_len := c_len ?g + ?k\<rparr>)
               (cb_fmt cb) ?k alloc_ok"
  have h': "h' = cache_unlock ?h1"
    using rf True by (auto simp: cache_read_refill_def Let_def)
  have "segments_ok ?g = segments_ok h"
    by (rule segments_ok_fields) simp_all
  then have okg: "segments_ok ?g" using ok by simp
  have "segments_ok ?h1"
    using okg by (rule producer_ok) (use fits al in simp_all)
  moreover have "segments_ok (cache_unlock ?h1) = segments_ok ?h1"
    by (rule segments_ok_fields) (simp_all add: cache_unlock_def)
  ultimately show ?thesis unfolding h' by simp
qed

lemma cache_read_ok:
  assumes ok: "segments_ok h" and b: "c_buffer h = Some b"
    and locked: "cache_read_locked h b buffer sz fmt = (n, buffer1, fmt1, h1)"
    and al: "alloc_ok \<or> c_fmt_list h1 \<noteq> []"
    and contract: "c_use_thread h \<or> cb_ret cb \<le> uint (c_size h1 - c_len h1)"
    and rd: "cache_read (Some h) buffer sz fmt cb alloc_ok = (r, buffer', fmt', Some h')"
  shows "segments_ok h'"
proof -
  have 1: "segments_ok h1" using ok locked by (rule read_locked_ok)
  have ut: "c_use_thread h1 = c_use_thread h" using locked by (rule cache_read_locked_mode)
  have ct: "c_use_thread h1 \<or> cb_ret cb \<le> uint (c_size h1 - c_len h1)"
    using contract ut by simp
  obtain r' where "cache_read_refill h1 n cb alloc_ok = (r', h')"
    using rd b locked by (auto simp: cache_read_def split: prod.splits)
  with 1 al ct show ?thesis by (rule refill_ok)
qed

subsection \<open>How the producer thread creates a boundary\<close>

text \<open>
  The section of the producer thread under \<^verbatim>\<open>mutex\<close> copies \<open>k\<close> samples, as many
  of the staged ones as fit. On an empty list it opens the first segment; under the
  format of the last segment, or an unspecified one, it adds to \<^verbatim>\<open>fmt_len\<close>; under a
  new format it appends a segment that stores the count under the format before, also
  when \<open>k = 0\<close>.
\<close>

lemma thread_put_first:
  assumes "c_fmt_list h = []"
    and k: "k = (if c_size h - c_len h > t_len t then t_len t else c_size h - c_len h)"
  shows "cache_thread_put h t True =
     (h\<lparr>c_buffer := map_option (\<lambda>b. memcpy_at b (unat (c_len h)) (t_buffer t) (unat k)) (c_buffer h),
        c_len := c_len h + k,
        c_fmt_list := [\<lparr>cf_fmt = t_in_fmt t, cf_len = c_fmt_len h\<rparr>],
        c_fmt_len := k,
        c_is_ready := (if c_len h + k = c_size h then True else c_is_ready h)\<rparr>,
      t\<lparr>t_len := t_len t - k\<rparr>, k)"
  using assms
  by (auto simp: cache_thread_put_def update_format_list_def cache_put_format_def Let_def
      format_cpy_def)

lemma thread_put_same:
  assumes "c_fmt_list h \<noteq> []"
    and "(samplerate (t_in_fmt t) = 0 \<and> channels (t_in_fmt t) = 0)
         \<or> format_cmp (t_in_fmt t) (cf_fmt (last (c_fmt_list h))) = 0"
    and k: "k = (if c_size h - c_len h > t_len t then t_len t else c_size h - c_len h)"
  shows "cache_thread_put h t alloc_ok =
     (h\<lparr>c_buffer := map_option (\<lambda>b. memcpy_at b (unat (c_len h)) (t_buffer t) (unat k)) (c_buffer h),
        c_len := c_len h + k,
        c_fmt_len := c_fmt_len h + k,
        c_is_ready := (if c_len h + k = c_size h then True else c_is_ready h)\<rparr>,
      t\<lparr>t_len := t_len t - k\<rparr>, k)"
  using assms
  by (auto simp: cache_thread_put_def update_format_list_def cache_put_format_def Let_def
      format_cpy_def)

lemma thread_put_change:
  assumes "c_fmt_list h \<noteq> []"
    and "samplerate (t_in_fmt t) \<noteq> 0 \<or> channels (t_in_fmt t) \<noteq> 0"
    and "format_cmp (t_in_fmt t) (cf_fmt (last (c_fmt_list h))) \<noteq> 0"
    and k: "k = (if c_size h - c_len h > t_len t then t_len t else c_size h - c_len h)"
  shows "cache_thread_put h t True =
     (h\<lparr>c_buffer := map_option (\<lambda>b. memcpy_at b (unat (c_len h)) (t_buffer t) (unat k)) (c_buffer h),
        c_len := c_len h + k,
        c_fmt_list := c_fmt_list h @ [\<lparr>cf_fmt = t_in_fmt t, cf_len = c_fmt_len h\<rparr>],
        c_fmt_len := k,
        c_is_ready := (if c_len h + k = c_size h then True else c_is_ready h)\<rparr>,
      t\<lparr>t_len := t_len t - k\<rparr>, k)"
  using assms
  by (auto simp: cache_thread_put_def update_format_list_def cache_put_format_def Let_def
      format_cpy_def)

text \<open>
  A cache that holds samples of one format \<open>A\<close> only, after a batch under a new format
  \<open>B\<close>: the samples under \<open>A\<close> are all that was cached before, the samples under \<open>B\<close>
  are the \<open>k\<close> that were copied, and there is a sample behind the boundary iff
  \<open>k > 0\<close>.
\<close>

lemma thread_put_boundary:
  assumes ok: "segments_ok h" and list: "c_fmt_list h = [cf]"
    and nontrivial: "samplerate (t_in_fmt t) \<noteq> 0 \<or> channels (t_in_fmt t) \<noteq> 0"
    and differs: "format_cmp (t_in_fmt t) (cf_fmt cf) \<noteq> 0"
    and put: "cache_thread_put h t True = (h', t', k)"
  shows "c_fmt_list h' = [cf, \<lparr>cf_fmt = t_in_fmt t, cf_len = c_len h\<rparr>]"
    and "head_frames h' = c_len h" and "head_frames (cache_get_format h') = k"
    and "c_len h' = c_len h + k" and "c_len h < c_len h' \<longleftrightarrow> 0 < k"
proof -
  let ?k = "if c_size h - c_len h > t_len t then t_len t else c_size h - c_len h"
  have "unat (c_fmt_len h) = unat (c_len h)" using ok list by (simp add: segments_ok_def)
  then have fl: "c_fmt_len h = c_len h" by (simp add: word_unat_eq_iff)
  have ne: "c_fmt_list h \<noteq> []" using list by simp
  have df: "format_cmp (t_in_fmt t) (cf_fmt (last (c_fmt_list h))) \<noteq> 0"
    using differs list by simp
  note p = thread_put_change [OF ne nontrivial df refl]
  from p put have k: "k = ?k" by simp
  from p put list fl show 1: "c_fmt_list h' = [cf, \<lparr>cf_fmt = t_in_fmt t, cf_len = c_len h\<rparr>]"
    by auto
  then show "head_frames h' = c_len h" by (simp add: head_frames_def)
  from p put have f: "c_fmt_len h' = k" by auto
  then show "head_frames (cache_get_format h') = k"
    using 1 by (simp add: head_frames_def cache_get_format_def)
  from p put k show len': "c_len h' = c_len h + k" by auto
  have le: "c_len h \<le> c_size h" using ok by (simp add: segments_ok_def)
  then have sub: "unat (c_size h - c_len h) = unat (c_size h) - unat (c_len h)"
    by (simp add: unat_sub)
  have ule: "unat (c_len h) \<le> unat (c_size h)" using le by (simp add: word_le_nat_alt)
  have "unat ?k \<le> unat (c_size h - c_len h)"
    by (simp add: word_less_nat_alt)
  then have "unat k \<le> unat (c_size h - c_len h)"
    unfolding k .
  then have "unat (c_len h) + unat k \<le> unat (c_size h)"
    using sub ule by linarith
  then have "unat (c_len h) + unat k < 2 ^ 64"
    using unat_ulong_less [of "c_size h"] by simp
  then have "unat (c_len h + k) = unat (c_len h) + unat k" by (rule unat_add_ulong)
  then show "c_len h < c_len h' \<longleftrightarrow> 0 < k"
    unfolding len' by (simp add: word_less_nat_alt)
qed

subsection \<open>Reading across a boundary\<close>








section \<open>The invariant of the cache without a flush\<close>

text \<open>
  Opening, the step of the producer thread, and a read with its refill keep the
  invariant, provided that allocation succeeds and that the callback returns no more
  than it was asked for. \<open>hw\<close> follows the high-water mark: it is set when \<^verbatim>\<open>len\<close>
  reaches \<^verbatim>\<open>size\<close> and cleared when \<^verbatim>\<open>len\<close> drops to 0.
\<close>

lemma cache_open_reach:
  assumes "cache_open sz ut has_cb res_ok fl = Some h"
  shows "cache_reach False h"
  using assms
  by (auto simp: cache_open_def cache_reach_def cache_inv_def segments_sum_def split: if_splits)

lemma producer_reach:
  assumes inv: "cache_reach hw h"
    and fits: "unat (c_len h) + unat k \<le> unat (c_size h)"
    and h': "h' = update_format_list (h\<lparr>c_buffer := bf, c_len := c_len h + k\<rparr>) in_fmt k True"
  shows "cache_reach (hw \<or> c_len h' = c_size h') h'"
proof -
  have lt: "unat (c_len h) + unat k < 2 ^ 64"
    using fits unat_ulong_less [of "c_size h"] by simp
  then have add: "unat (c_len h + k) = unat (c_len h) + unat k"
    by (rule unat_add_ulong)
  have le': "c_len h + k \<le> c_size h"
    using fits add by (simp add: word_le_nat_alt)
  have sum: "segments_sum h = unat (c_len h)"
    using inv by (simp add: cache_reach_def cache_inv_def)
  have rdy: "c_is_ready h \<longleftrightarrow> 0 < c_len h \<and> hw"
    using inv by (simp add: cache_reach_def cache_inv_def)
  have hw: "hw \<longrightarrow> 0 < c_len h" and sz: "c_size h \<noteq> 0"
    using inv by (simp_all add: cache_reach_def)
  have pos: "0 < c_len h + k" if "0 < c_len h"
  proof -
    have "0 < unat (c_len h)" using that by (simp add: word_less_nat_alt)
    then have "0 < unat (c_len h + k)" using add by simp
    then show ?thesis by (simp add: word_less_nat_alt)
  qed
  have len': "c_len h' = c_len h + k" and size': "c_size h' = c_size h"
    unfolding h' by (simp_all add: update_format_list_def cache_put_format_def Let_def)
  have ready': "c_is_ready h' \<longleftrightarrow> c_is_ready h \<or> c_len h + k = c_size h"
    unfolding h' by (auto simp: update_format_list_def cache_put_format_def Let_def)
  have fl0: "c_fmt_len h = 0 \<and> c_len h = 0" if "c_fmt_list h = []"
    using inv that
    by (auto simp: cache_reach_def cache_inv_def segments_sum_def unat_0_iff)
  have fsum: "unat (c_fmt_len h) + unat k < 2 ^ 64"
    using sum lt by (simp add: segments_sum_def)
  have fadd: "unat (c_fmt_len h + k) = unat (c_fmt_len h) + unat k"
    using fsum by (rule unat_add_ulong)
  have shape: "(c_fmt_list h' = c_fmt_list h @ [\<lparr>cf_fmt = in_fmt, cf_len = c_fmt_len h\<rparr>]
                  \<and> c_fmt_len h' = k)
             \<or> (c_fmt_list h \<noteq> [] \<and> c_fmt_list h' = c_fmt_list h \<and> c_fmt_len h' = c_fmt_len h + k)"
    unfolding h'
    by (simp add: update_format_list_def cache_put_format_def Let_def format_cpy_def)
  have sum': "segments_sum h' = unat (c_len h) + unat k"
    using shape
  proof
    assume "c_fmt_list h' = c_fmt_list h @ [\<lparr>cf_fmt = in_fmt, cf_len = c_fmt_len h\<rparr>]
              \<and> c_fmt_len h' = k"
    then show ?thesis using sum by (simp add: segments_sum_def)
  next
    assume "c_fmt_list h \<noteq> [] \<and> c_fmt_list h' = c_fmt_list h \<and> c_fmt_len h' = c_fmt_len h + k"
    then show ?thesis using sum fadd by (simp add: segments_sum_def)
  qed
  have head': "case c_fmt_list h' of [] \<Rightarrow> c_len h' = 0 | cf # _ \<Rightarrow> cf_len cf = 0"
    using shape
  proof
    assume a: "c_fmt_list h' = c_fmt_list h @ [\<lparr>cf_fmt = in_fmt, cf_len = c_fmt_len h\<rparr>]
              \<and> c_fmt_len h' = k"
    show ?thesis
    proof (cases "c_fmt_list h")
      case Nil
      then show ?thesis using a fl0 by simp
    next
      case (Cons cf rest)
      then show ?thesis using a inv by (simp add: cache_reach_def)
    qed
  next
    assume "c_fmt_list h \<noteq> [] \<and> c_fmt_list h' = c_fmt_list h \<and> c_fmt_len h' = c_fmt_len h + k"
    then show ?thesis using inv by (auto simp: cache_reach_def split: list.splits)
  qed
  have inv1: "c_len h' \<le> c_size h'" using le' by (simp add: len' size')
  have inv3: "segments_sum h' = unat (c_len h')" using sum' add by (simp add: len')
  have inv2: "c_is_ready h' \<longleftrightarrow> (0 < c_len h' \<and> (hw \<or> c_len h' = c_size h'))"
  proof (cases "c_len h + k = c_size h")
    case True
    then have "0 < c_len h + k" using sz by (simp add: word_greater_zero_iff)
    then show ?thesis using True ready' by (simp add: len' size')
  next
    case False
    show ?thesis
    proof (cases hw)
      case True
      then have "0 < c_len h" using hw by simp
      then show ?thesis using True False ready' rdy pos by (simp add: len' size')
    next
      case hwF: False
      then show ?thesis using False ready' rdy by (simp add: len' size')
    qed
  qed
  have inv4: "hw \<or> c_len h' = c_size h' \<longrightarrow> 0 < c_len h'"
    using inv2 ready' rdy hw pos sz by (auto simp: len' size' word_greater_zero_iff)
  show ?thesis
    unfolding cache_reach_def cache_inv_def
    using inv1 inv2 inv3 inv4 head' sz by (simp add: size')
qed

lemma thread_put_reach:
  assumes inv: "cache_reach hw h" and put: "cache_thread_put h t True = (h', t', k)"
  shows "cache_reach (hw \<or> c_len h' = c_size h') h'"
proof -
  let ?k = "if c_size h - c_len h > t_len t then t_len t else c_size h - c_len h"
  have le: "c_len h \<le> c_size h" using inv by (simp add: cache_reach_def cache_inv_def)
  then have sub: "unat (c_size h - c_len h) = unat (c_size h) - unat (c_len h)"
    by (simp add: unat_sub)
  have ule: "unat (c_len h) \<le> unat (c_size h)" using le by (simp add: word_le_nat_alt)
  have "unat ?k \<le> unat (c_size h - c_len h)"
    by (simp add: word_less_nat_alt)
  then have fits: "unat (c_len h) + unat ?k \<le> unat (c_size h)"
    using sub ule by linarith
  have "h' = update_format_list
               (h\<lparr>c_buffer := map_option (\<lambda>b. memcpy_at b (unat (c_len h)) (t_buffer t) (unat ?k))
                                 (c_buffer h),
                  c_len := c_len h + ?k\<rparr>) (t_in_fmt t) ?k True"
    using put by (auto simp: cache_thread_put_def Let_def)
  with inv fits show ?thesis by (rule producer_reach)
qed

lemma read_locked_reach:
  assumes inv: "cache_reach hw h"
    and rd: "cache_read_locked h b buffer sz fmt = (n, buffer', fmt', h')"
  shows "cache_reach (hw \<and> c_len h' \<noteq> 0) h'"
proof (cases "c_is_ready h")
  case False
  then have "h' = h" using rd by (simp add: cache_read_locked_def)
  moreover have "hw \<longrightarrow> c_len h \<noteq> 0" using inv by (auto simp: cache_reach_def)
  ultimately show ?thesis using inv by (cases hw) auto
next
  case True
  then have hw: hw and pos: "0 < c_len h"
    using inv by (simp_all add: cache_reach_def cache_inv_def)
  have sz: "c_size h \<noteq> 0" and le: "c_len h \<le> c_size h"
    and sum: "segments_sum h = unat (c_len h)"
    using inv by (simp_all add: cache_reach_def cache_inv_def)
  let ?sz1 = "if sz > c_len h then c_len h else sz"
  have sz1: "?sz1 \<le> c_len h" by (simp add: word_le_nat_alt word_less_nat_alt)
  show ?thesis
  proof (cases "c_fmt_list h")
    case Nil
    then show ?thesis using inv pos by (simp add: cache_reach_def)
  next
    case (Cons cf rest)
    then have cf0: "cf_len cf = 0" using inv by (simp add: cache_reach_def)
    show ?thesis
    proof (cases rest)
      case Nil
      have fl: "c_fmt_len h = c_len h"
        using sum Cons Nil cf0 by (simp add: segments_sum_def word_unat_eq_iff)
      have h': "h' = h\<lparr>c_buffer := Some (memcpy_at b 0 (drop (unat ?sz1) b) (unat (c_len h - ?sz1))),
                       c_len := c_len h - ?sz1, c_fmt_list := [cf], c_fmt_len := c_fmt_len h - ?sz1,
                       c_is_ready := (if c_len h - ?sz1 = 0 then False else c_is_ready h)\<rparr>"
        using rd True Cons Nil by (auto simp: cache_read_locked_def Let_def)
      have "c_len h - ?sz1 \<le> c_len h" using sz1 by (simp add: word_le_nat_alt unat_sub)
      then have le': "c_len h - ?sz1 \<le> c_size h" using le by (rule order_trans)
      show ?thesis
        unfolding cache_reach_def cache_inv_def h'
        using le' hw True sz cf0 fl
        by (simp add: segments_sum_def word_greater_zero_iff)
    next
      case (Cons nf rest')
      note Cons2 = this
      let ?rest = "sum_list (map (\<lambda>cf. unat (cf_len cf)) rest')"
      have tot: "unat (cf_len nf) + ?rest + unat (c_fmt_len h) = unat (c_len h)"
        using sum \<open>c_fmt_list h = cf # rest\<close> Cons2 cf0 by (simp add: segments_sum_def)
      then have nfle: "cf_len nf \<le> c_len h" by (simp add: word_le_nat_alt)
      show ?thesis
      proof (cases "cf_len nf < ?sz1")
        case lt: True
        have h': "h' = h\<lparr>c_buffer := Some (memcpy_at b 0 (drop (unat (cf_len nf)) b)
                                            (unat (c_len h - cf_len nf))),
                       c_len := c_len h - cf_len nf, c_fmt_list := nf\<lparr>cf_len := 0\<rparr> # rest',
                       c_fmt_len := c_fmt_len h,
                       c_is_ready := (if c_len h - cf_len nf = 0 then False else c_is_ready h)\<rparr>"
          using rd True \<open>c_fmt_list h = cf # rest\<close> Cons2 lt
          by (auto simp: cache_read_locked_def cache_get_format_def Let_def)
        have sub: "unat (c_len h - cf_len nf) = unat (c_len h) - unat (cf_len nf)"
          using nfle by (simp add: unat_sub)
        then have "c_len h - cf_len nf \<le> c_len h" by (simp add: word_le_nat_alt)
        then have le': "c_len h - cf_len nf \<le> c_size h" using le by (rule order_trans)
        have sum': "?rest + unat (c_fmt_len h) = unat (c_len h - cf_len nf)"
          using tot sub by linarith
        show ?thesis
          unfolding cache_reach_def cache_inv_def h'
          using le' hw True sz sum'
          by (simp add: segments_sum_def word_greater_zero_iff)
      next
        case ge: False
        then have s1le: "?sz1 \<le> cf_len nf" by simp
        have h': "h' = h\<lparr>c_buffer := Some (memcpy_at b 0 (drop (unat ?sz1) b) (unat (c_len h - ?sz1))),
                       c_len := c_len h - ?sz1,
                       c_fmt_list := cf # nf\<lparr>cf_len := cf_len nf - ?sz1\<rparr> # rest',
                       c_fmt_len := c_fmt_len h,
                       c_is_ready := (if c_len h - ?sz1 = 0 then False else c_is_ready h)\<rparr>"
          using rd True \<open>c_fmt_list h = cf # rest\<close> Cons2 ge
          by (auto simp: cache_read_locked_def cache_get_format_def Let_def)
        have sub1: "unat (c_len h - ?sz1) = unat (c_len h) - unat ?sz1"
          using sz1 by (simp only: unat_sub)
        have sub2: "unat (cf_len nf - ?sz1) = unat (cf_len nf) - unat ?sz1"
          using s1le by (simp only: unat_sub)
        have u1: "unat ?sz1 \<le> unat (cf_len nf)" using s1le by (simp only: word_le_nat_alt)
        have "c_len h - ?sz1 \<le> c_len h" using sub1 by (simp only: word_le_nat_alt)
        then have le': "c_len h - ?sz1 \<le> c_size h" using le by (rule order_trans)
        have sum': "unat (cf_len nf - ?sz1) + ?rest + unat (c_fmt_len h) = unat (c_len h - ?sz1)"
          using tot sub1 sub2 u1 by linarith
        show ?thesis
          unfolding cache_reach_def cache_inv_def h'
          using le' hw True sz cf0 sum'
          by (simp add: segments_sum_def word_greater_zero_iff)
      qed
    qed
  qed
qed

lemma cache_reach_fields:
  assumes "c_fmt_list h' = c_fmt_list h" "c_len h' = c_len h" "c_size h' = c_size h"
    "c_fmt_len h' = c_fmt_len h" "c_is_ready h' = c_is_ready h"
  shows "cache_reach hw h' = cache_reach hw h"
  using assms
  by (auto simp: cache_reach_def cache_inv_def segments_sum_def split: list.splits)

lemma refill_reach:
  assumes inv: "cache_reach hw h"
    and contract: "cb_ret cb \<le> uint (c_size h - c_len h)"
    and rf: "cache_read_refill h sz cb True = (r, h')"
  shows "\<exists>hw'. cache_reach hw' h'"
proof (cases "\<not> c_use_thread h \<and> c_len h < c_size h \<and> \<not> c_input_lock h \<and> 0 \<le> cb_ret cb")
  case False
  then have "c_fmt_list h' = c_fmt_list h \<and> c_len h' = c_len h \<and> c_size h' = c_size h
      \<and> c_fmt_len h' = c_fmt_len h \<and> c_is_ready h' = c_is_ready h"
    using rf by (auto simp: cache_read_refill_def Let_def split: if_splits)
  then have "cache_reach hw h' = cache_reach hw h"
    by (intro cache_reach_fields) simp_all
  then have "cache_reach hw h'" using inv by simp
  then show ?thesis ..
next
  case True
  let ?k = "word_of_int (cb_ret cb) :: ulong"
  let ?bf = "map_option (\<lambda>b. memcpy_at b (unat (c_len h)) (cb_data cb) (length (cb_data cb)))
               (c_buffer h)"
  have le: "c_len h \<le> c_size h" using inv by (simp add: cache_reach_def cache_inv_def)
  then have sub: "unat (c_size h - c_len h) = unat (c_size h) - unat (c_len h)"
    by (simp add: unat_sub)
  have ule: "unat (c_len h) \<le> unat (c_size h)" using le by (simp add: word_le_nat_alt)
  have "uint ?k = cb_ret cb"
  proof -
    have "cb_ret cb < 2 ^ 64"
      using contract uint_lt2p [of "c_size h - c_len h"] by simp
    then show ?thesis using True by (simp add: uint_word_of_int take_bit_int_eq_self)
  qed
  then have "uint ?k \<le> uint (c_size h - c_len h)" using contract by simp
  then have "unat ?k \<le> unat (c_size h - c_len h)"
    by (simp add: word_le_def [symmetric] word_le_nat_alt)
  then have fits: "unat (c_len h) + unat ?k \<le> unat (c_size h)"
    using sub ule by linarith
  let ?h1 = "update_format_list (h\<lparr>c_input_lock := True, c_buffer := ?bf, c_len := c_len h + ?k\<rparr>)
               (cb_fmt cb) ?k True"
  have h': "h' = cache_unlock ?h1"
    using rf True by (auto simp: cache_read_refill_def Let_def)
  have "cache_reach hw (h\<lparr>c_input_lock := True\<rparr>) = cache_reach hw h"
    by (rule cache_reach_fields) simp_all
  then have inv1: "cache_reach hw (h\<lparr>c_input_lock := True\<rparr>)"
    using inv by simp
  have "cache_reach (hw \<or> c_len ?h1 = c_size ?h1) ?h1"
    using inv1 by (rule producer_reach) (use fits in simp_all)
  moreover have "cache_reach (hw \<or> c_len ?h1 = c_size ?h1) (cache_unlock ?h1)
      = cache_reach (hw \<or> c_len ?h1 = c_size ?h1) ?h1"
    by (rule cache_reach_fields) (simp_all add: cache_unlock_def)
  ultimately have "cache_reach (hw \<or> c_len ?h1 = c_size ?h1) h'"
    unfolding h' by simp
  then show ?thesis ..
qed

lemma cache_read_reach:
  assumes inv: "cache_reach hw h" and b: "c_buffer h = Some b"
    and locked: "cache_read_locked h b buffer sz fmt = (n, buffer1, fmt1, h1)"
    and contract: "cb_ret cb \<le> uint (c_size h1 - c_len h1)"
    and rd: "cache_read (Some h) buffer sz fmt cb True = (r, buffer', fmt', Some h')"
  shows "\<exists>hw'. cache_reach hw' h'"
proof -
  have 1: "cache_reach (hw \<and> c_len h1 \<noteq> 0) h1"
    using inv locked by (rule read_locked_reach)
  obtain r' where "cache_read_refill h1 n cb True = (r', h')"
    using rd b locked by (auto simp: cache_read_def split: prod.splits)
  with 1 contract show ?thesis by (rule refill_reach)
qed

text \<open>
  After a flush the invariant of the specification holds only if \<^verbatim>\<open>fmt_len\<close> was 0
  before.
\<close>

lemma cache_flush_inv_iff:
  assumes "cache_flush h = Some h'"
  shows "(\<exists>hw'. cache_inv hw' h') \<longleftrightarrow> c_fmt_len h = 0"
  using assms
  by (auto simp: cache_flush_def cache_lock_def cache_inv_def segments_sum_def unat_0_iff
      split: if_splits)

section \<open>The invariant of the cache across a flush\<close>

text \<open>
  C4. Every operation of the cache should preserve the invariant. The producer thread
  fills a cache of size 2 with 2 samples, after which the invariant holds; then the
  cache is flushed. \<^verbatim>\<open>cache_flush\<close> clears \<^verbatim>\<open>len\<close> and the format list and leaves
  \<^verbatim>\<open>fmt_len\<close> at 2, so the segment lengths plus \<^verbatim>\<open>fmt_len\<close> are 2 while \<^verbatim>\<open>len\<close> is
  0, and the invariant does not hold, whatever the high-water flag.
\<close>

theorem flush_keeps_fmt_len:
  "cache_thread_put
     \<lparr>c_use_thread = True, c_buffer = Some [0, 0], c_size = 2, c_len = 0, c_pos = 0,
      c_is_ready = False, c_fmt_list = [], c_fmt_len = 0, c_input_lock = False,
      c_flush = False, c_stop = False\<rparr>
     \<lparr>t_in_fmt = \<lparr>samplerate = 44100, channels = 2\<rparr>, t_buffer = [1, 2], t_len = 2\<rparr> True
   = (\<lparr>c_use_thread = True, c_buffer = Some [1, 2], c_size = 2, c_len = 2, c_pos = 0,
       c_is_ready = True,
       c_fmt_list = [\<lparr>cf_fmt = \<lparr>samplerate = 44100, channels = 2\<rparr>, cf_len = 0\<rparr>],
       c_fmt_len = 2, c_input_lock = False, c_flush = False, c_stop = False\<rparr>,
      \<lparr>t_in_fmt = \<lparr>samplerate = 44100, channels = 2\<rparr>, t_buffer = [1, 2], t_len = 0\<rparr>, 2)
   \<and> cache_inv True
       \<lparr>c_use_thread = True, c_buffer = Some [1, 2], c_size = 2, c_len = 2, c_pos = 0,
        c_is_ready = True,
        c_fmt_list = [\<lparr>cf_fmt = \<lparr>samplerate = 44100, channels = 2\<rparr>, cf_len = 0\<rparr>],
        c_fmt_len = 2, c_input_lock = False, c_flush = False, c_stop = False\<rparr>
   \<and> cache_flush
       \<lparr>c_use_thread = True, c_buffer = Some [1, 2], c_size = 2, c_len = 2, c_pos = 0,
        c_is_ready = True,
        c_fmt_list = [\<lparr>cf_fmt = \<lparr>samplerate = 44100, channels = 2\<rparr>, cf_len = 0\<rparr>],
        c_fmt_len = 2, c_input_lock = False, c_flush = False, c_stop = False\<rparr>
     = Some \<lparr>c_use_thread = True, c_buffer = Some [1, 2], c_size = 2, c_len = 0, c_pos = 0,
             c_is_ready = False, c_fmt_list = [], c_fmt_len = 2, c_input_lock = True,
             c_flush = True, c_stop = False\<rparr>
   \<and> segments_sum
       \<lparr>c_use_thread = True, c_buffer = Some [1, 2], c_size = 2, c_len = 0, c_pos = 0,
        c_is_ready = False, c_fmt_list = [], c_fmt_len = 2, c_input_lock = True,
        c_flush = True, c_stop = False\<rparr> = 2
   \<and> \<not> cache_inv False
       \<lparr>c_use_thread = True, c_buffer = Some [1, 2], c_size = 2, c_len = 0, c_pos = 0,
        c_is_ready = False, c_fmt_list = [], c_fmt_len = 2, c_input_lock = True,
        c_flush = True, c_stop = False\<rparr>
   \<and> \<not> cache_inv True
       \<lparr>c_use_thread = True, c_buffer = Some [1, 2], c_size = 2, c_len = 0, c_pos = 0,
        c_is_ready = False, c_fmt_list = [], c_fmt_len = 2, c_input_lock = True,
        c_flush = True, c_stop = False\<rparr>"
  by (simp add: cache_thread_put_def update_format_list_def cache_put_format_def format_cpy_def
      memcpy_at_def cache_inv_def segments_sum_def cache_flush_def cache_lock_def)

end
